theory Spec2Isabelle
  imports Complex_Main "HOL-Library.Word"
begin

section \<open>JavaScript numbers and arrays\<close>

text \<open>
  The engine of \<^verbatim>\<open>src/math/scissors.js\<close> computes on JavaScript numbers. A number is
  modelled as a \<open>real option\<close>: \<open>Some r\<close> is the finite number \<open>r\<close> (arithmetic is exact,
  rounding of doubles is not modelled), and \<open>None\<close> is a value that is not a number:
  \<^verbatim>\<open>NaN\<close>, and \<^verbatim>\<open>undefined\<close> (an array hole or an out-of-range read), which becomes
  \<^verbatim>\<open>NaN\<close> in any arithmetic. \<^verbatim>\<open>NaN\<close> propagates through every operation and makes every
  comparison false.
\<close>

type_synonym num = "real option"

fun lift2 :: "(real \<Rightarrow> real \<Rightarrow> real) \<Rightarrow> num \<Rightarrow> num \<Rightarrow> num" where
  "lift2 f (Some a) (Some b) = Some (f a b)"
| "lift2 f _ _ = None"

definition num_add :: "num \<Rightarrow> num \<Rightarrow> num" where
  "num_add = lift2 (+)"

definition num_sub :: "num \<Rightarrow> num \<Rightarrow> num" where
  "num_sub = lift2 (-)"

definition num_mul :: "num \<Rightarrow> num \<Rightarrow> num" where
  "num_mul = lift2 (*)"

text \<open>
  Division: \<^verbatim>\<open>0 / 0\<close> is \<^verbatim>\<open>NaN\<close>. A non-zero number divided by zero would be an
  infinity; every divisor of the engine is either a non-zero constant, floored away
  from zero, or the maximum of the dividends, so that case does not arise and is
  folded into \<open>None\<close>.
\<close>

definition num_div :: "num \<Rightarrow> num \<Rightarrow> num" where
  "num_div a b = (if b = Some 0 then None else lift2 (/) a b)"

definition num_max :: "num \<Rightarrow> num \<Rightarrow> num" where
  "num_max = lift2 max"

definition num_min :: "num \<Rightarrow> num \<Rightarrow> num" where
  "num_min = lift2 min"

definition num_sqrt :: "num \<Rightarrow> num" where
  "num_sqrt a = (case a of None \<Rightarrow> None | Some x \<Rightarrow> if x < 0 then None else Some (sqrt x))"

definition num_acos :: "num \<Rightarrow> num" where
  "num_acos a = (case a of None \<Rightarrow> None
     | Some x \<Rightarrow> if - 1 \<le> x \<and> x \<le> 1 then Some (arccos x) else None)"

definition num_lt :: "num \<Rightarrow> num \<Rightarrow> bool" where
  "num_lt a b = (case a of None \<Rightarrow> False | Some x \<Rightarrow> (case b of None \<Rightarrow> False | Some y \<Rightarrow> x < y))"

definition num_gt :: "num \<Rightarrow> num \<Rightarrow> bool" where
  "num_gt a b = num_lt b a"

text \<open>\<^verbatim>\<open>Math.round\<close> rounds half up: \<open>\<lfloor>x + 1/2\<rfloor>\<close>.\<close>

definition js_round :: "real \<Rightarrow> int" where
  "js_round x = \<lfloor>x + 1 / 2\<rfloor>"

text \<open>
  An array is a list of optional elements, a hole being \<open>None\<close>. Reading outside the
  array yields \<^verbatim>\<open>undefined\<close>; writing at or past the end extends the array, leaving
  holes; a negative key is a property that is not an element, and is not kept.
\<close>

definition arr_get :: "'a option list \<Rightarrow> int \<Rightarrow> 'a option" where
  "arr_get xs i = (if 0 \<le> i \<and> nat i < length xs then xs ! nat i else None)"

definition arr_set :: "'a option list \<Rightarrow> int \<Rightarrow> 'a option \<Rightarrow> 'a option list" where
  "arr_set xs i v =
     (if i < 0 then xs
      else if nat i < length xs then xs[nat i := v]
      else xs @ replicate (nat i - length xs) None @ [v])"

text \<open>
  A matrix is an array of rows. The engine assigns a row at an index below the
  length (replacing it) or at the length itself (appending), or, for degenerate
  heights, at a negative key, which is not an element.
\<close>

type_synonym matrix = "num list list"

definition rows_set :: "'a list \<Rightarrow> int \<Rightarrow> 'a \<Rightarrow> 'a list" where
  "rows_set m i r =
     (if i < 0 then m
      else if nat i < length m then m[nat i := r]
      else m @ [r])"

text \<open>
  \<open>mat_get m y x\<close> reads \<^verbatim>\<open>m[y][x]\<close> where the row \<^verbatim>\<open>m[y]\<close> exists, which the loop
  bounds of the field builders guarantee; reads that can miss the row are modelled
  with \<open>row_get\<close> and raise.
\<close>

definition mat_get :: "matrix \<Rightarrow> int \<Rightarrow> int \<Rightarrow> num" where
  "mat_get m y x = (if 0 \<le> y \<and> nat y < length m then arr_get (m ! nat y) x else None)"

datatype error =
    DimensionsNotSet  \<comment> \<open>\<^verbatim>\<open>throw new Error('Dimensions have not been set.')\<close>, the spec's ConfigurationError\<close>
  | TypeError         \<comment> \<open>a property read or written on \<^verbatim>\<open>null\<close> or \<^verbatim>\<open>undefined\<close>\<close>
  | QueueEmpty        \<comment> \<open>\<^verbatim>\<open>pop\<close> on an empty queue\<close>

definition row_get :: "'a list \<Rightarrow> int \<Rightarrow> error + 'a" where
  "row_get m y = (if 0 \<le> y \<and> nat y < length m then Inr (m ! nat y) else Inl TypeError)"

section \<open>Field preprocessor\<close>

subsection \<open>Greyscale and its derivative helpers\<close>

text \<open>The pixel buffer is a flat RGBA array of samples in 0..255.\<close>

definition data_get :: "nat list \<Rightarrow> int \<Rightarrow> num" where
  "data_get d p = (if 0 \<le> p \<and> nat p < length d then Some (real (d ! nat p)) else None)"

definition computeGreyscale :: "nat list \<Rightarrow> int \<Rightarrow> int \<Rightarrow> matrix" where
  "computeGreyscale d width height =
     map (\<lambda>y. map (\<lambda>x.
            let p = (int y * width + int x) * 4
            in num_div (num_add (num_add (data_get d p) (data_get d (p + 1))) (data_get d (p + 2)))
                 (Some (3 * 255)))
          [0..<nat width])
       [0..<nat height]"

definition row_len :: "matrix \<Rightarrow> int \<Rightarrow> int" where
  "row_len g y = (if 0 \<le> y \<and> nat y < length g then int (length (g ! nat y)) else 0)"

definition greyscale_dx :: "matrix \<Rightarrow> int \<Rightarrow> int \<Rightarrow> num" where
  "greyscale_dx g x y =
     (let x' = (if x + 1 = row_len g y then x - 1 else x)
      in num_sub (mat_get g y (x' + 1)) (mat_get g y x'))"

definition greyscale_dy :: "matrix \<Rightarrow> int \<Rightarrow> int \<Rightarrow> num" where
  "greyscale_dy g x y =
     (let y' = (if y + 1 = int (length g) then y - 1 else y)
      in num_sub (mat_get g y' x) (mat_get g (y' + 1) x))"

definition gradMagnitude :: "matrix \<Rightarrow> int \<Rightarrow> int \<Rightarrow> num" where
  "gradMagnitude g x y =
     (let dx = greyscale_dx g x y; dy = greyscale_dy g x y
      in num_sqrt (num_add (num_mul dx dx) (num_mul dy dy)))"

definition greyscale_laplace :: "matrix \<Rightarrow> int \<Rightarrow> int \<Rightarrow> num" where
  "greyscale_laplace g x y =
     (let lap = num_mul (Some (- 16)) (mat_get g y x);
          lap = num_add lap (mat_get g (y - 2) x);
          lap = num_add lap
                  (num_add (num_add (mat_get g (y - 1) (x - 1))
                                    (num_mul (Some 2) (mat_get g (y - 1) x)))
                           (mat_get g (y - 1) (x + 1)));
          lap = num_add lap
                  (num_add (num_add (num_add (mat_get g y (x - 2))
                                             (num_mul (Some 2) (mat_get g y (x - 1))))
                                    (num_mul (Some 2) (mat_get g y (x + 1))))
                           (mat_get g y (x + 2)));
          lap = num_add lap
                  (num_add (num_add (mat_get g (y + 1) (x - 1))
                                    (num_mul (Some 2) (mat_get g (y + 1) x)))
                           (mat_get g (y + 1) (x + 1)));
          lap = num_add lap (mat_get g (y + 2) x)
      in lap)"

subsection \<open>Laplace zero-crossings\<close>

text \<open>
  The padding loops of \<^verbatim>\<open>computeLaplace\<close> run \<^verbatim>\<open>for (i = 1; i < greyscale.length; i++)\<close>:
  they start at column 1 and are bounded by the number of rows.
\<close>

definition laplace_pad :: "nat \<Rightarrow> num list" where
  "laplace_pad h = fold (\<lambda>i r. arr_set r (int i) (Some 1)) [1..<h] []"

definition laplace_row :: "matrix \<Rightarrow> nat \<Rightarrow> num list" where
  "laplace_row g y =
     (let w = row_len g (int y);
          r = arr_set (arr_set [] 0 (Some 1)) 1 (Some 1);
          r = fold (\<lambda>x r. arr_set r (int x)
                       (if num_gt (greyscale_laplace g (int x) (int y)) (Some 0.33)
                        then Some 0 else Some 1))
                [2..<nat (w - 2)] r;
          r = arr_set r (w - 2) (Some 1);
          r = arr_set r (w - 1) (Some 1)
      in r)"

definition computeLaplace :: "matrix \<Rightarrow> matrix" where
  "computeLaplace g =
     (let h = length g;
          laplace = [laplace_pad h, laplace_pad h];
          laplace = fold (\<lambda>y m. rows_set m (int y) (laplace_row g y)) [2..<h - 2] laplace;
          laplace = rows_set laplace (int h - 2) (laplace_pad h);
          laplace = rows_set laplace (int h - 1) (laplace_pad h)
      in laplace)"

subsection \<open>Gradient magnitude\<close>

definition gradient_row :: "matrix \<Rightarrow> nat \<Rightarrow> num list" where
  "gradient_row g y =
     (let w = row_len g (int y);
          r = fold (\<lambda>x r. arr_set r (int x) (gradMagnitude g (int x) (int y))) [0..<nat (w - 1)] [];
          r = arr_set r (w - 1) (arr_get r (int (length g) - 2))
      in r)"

definition gradient_max :: "matrix \<Rightarrow> num" where
  "gradient_max g =
     fold (\<lambda>y m. fold (\<lambda>x m. num_max (gradMagnitude g (int x) (int y)) m)
                     [0..<nat (row_len g (int y) - 1)] m)
       [0..<length g - 1] (Some 0)"

text \<open>
  \<^verbatim>\<open>gradient[0].length\<close> raises when there is no row 0, that is for an image of
  height 0.
\<close>

definition computeGradient :: "matrix \<Rightarrow> error + matrix" where
  "computeGradient g =
     (let h = int (length g);
          gradient = map (gradient_row g) [0..<length g - 1];
          mx = gradient_max g;
          gradient = rows_set gradient (h - 1) []
      in case row_get gradient 0 of
           Inl e \<Rightarrow> Inl e
         | Inr r0 \<Rightarrow>
             let bottom = fold (\<lambda>i r. arr_set r (int i) (mat_get gradient (h - 2) (int i)))
                            [0..<length r0] [];
                 gradient = rows_set gradient (h - 1) bottom
             in Inr (map (map (\<lambda>v. num_sub (Some 1) (num_div v mx))) gradient))"

subsection \<open>Directional differences\<close>

definition computeGradX :: "matrix \<Rightarrow> matrix" where
  "computeGradX g =
     map (\<lambda>y. let w = row_len g (int y);
                r = fold (\<lambda>x r. arr_set r (int x) (greyscale_dx g (int x) (int y)))
                      [0..<nat (w - 1)] []
            in arr_set r (w - 1) (arr_get r (w - 2)))
       [0..<length g]"

text \<open>
  \<^verbatim>\<open>greyscale[0].length\<close> raises for height 0, and \<^verbatim>\<open>gradY[greyscale.length - 2][i]\<close>
  raises for height 1, where the row read is \<^verbatim>\<open>gradY[-1]\<close>.
\<close>

definition computeGradY :: "matrix \<Rightarrow> error + matrix" where
  "computeGradY g =
     (let h = int (length g);
          gradY = map (\<lambda>y. map (\<lambda>x. greyscale_dy g (int x) (int y))
                              [0..<nat (row_len g (int y))])
                    [0..<length g - 1];
          gradY = rows_set gradY (h - 1) []
      in case row_get g 0 of
           Inl e \<Rightarrow> Inl e
         | Inr g0 \<Rightarrow>
             if length g0 = 0 then Inr gradY
             else (case row_get gradY (h - 2) of
                     Inl e \<Rightarrow> Inl e
                   | Inr prev \<Rightarrow>
                       Inr (rows_set gradY (h - 1)
                              (fold (\<lambda>i r. arr_set r (int i) (arr_get prev (int i)))
                                 [0..<length g0] []))))"

definition gradUnitVector :: "matrix \<Rightarrow> matrix \<Rightarrow> int \<Rightarrow> int \<Rightarrow> error + (num \<times> num)" where
  "gradUnitVector gradX gradY px py =
     (case row_get gradX py of
        Inl e \<Rightarrow> Inl e
      | Inr rx \<Rightarrow>
          (case row_get gradY py of
             Inl e \<Rightarrow> Inl e
           | Inr ry \<Rightarrow>
               let ox = arr_get rx px;
                   oy = arr_get ry px;
                   gvm = num_sqrt (num_add (num_mul ox ox) (num_mul oy oy));
                   gvm = num_max gvm (Some (1 / 10 ^ 100))
               in Inr (num_div ox gvm, num_div oy gvm)))"

definition twothirdpi :: real where
  "twothirdpi = 2 / (3 * pi)"

definition SQRT1_2 :: real where
  "SQRT1_2 = sqrt (1 / 2)"

definition gradDirection :: "matrix \<Rightarrow> matrix \<Rightarrow> int \<Rightarrow> int \<Rightarrow> int \<Rightarrow> int \<Rightarrow> error + num" where
  "gradDirection gradX gradY px py qx qy =
     (case gradUnitVector gradX gradY px py of
        Inl e \<Rightarrow> Inl e
      | Inr (dgpuv_x, dgpuv_y) \<Rightarrow>
          (case gradUnitVector gradX gradY qx qy of
             Inl e \<Rightarrow> Inl e
           | Inr (gdquv_x, gdquv_y) \<Rightarrow>
               let sx = Some (real_of_int (qx - px));
                   sy = Some (real_of_int (qy - py));
                   dp = num_sub (num_mul dgpuv_y sx) (num_mul dgpuv_x sy);
                   dq = num_sub (num_mul gdquv_y sx) (num_mul gdquv_x sy);
                   neg = num_lt dp (Some 0);
                   dp = (if neg then num_sub (Some 0) dp else dp);
                   dq = (if neg then num_sub (Some 0) dq else dq);
                   diag = (px \<noteq> qx \<and> py \<noteq> qy);
                   dp = (if diag then num_mul dp (Some SQRT1_2) else dp);
                   dq = (if diag then num_mul dq (Some SQRT1_2) else dq)
               in Inr (num_mul (Some twothirdpi) (num_add (num_acos dp) (num_acos dq)))))"

subsection \<open>Side samples\<close>

fun emap :: "('a \<Rightarrow> error + 'b) \<Rightarrow> 'a list \<Rightarrow> error + 'b list" where
  "emap f [] = Inr []"
| "emap f (x # xs) =
     (case f x of
        Inl e \<Rightarrow> Inl e
      | Inr v \<Rightarrow> (case emap f xs of Inl e \<Rightarrow> Inl e | Inr vs \<Rightarrow> Inr (v # vs)))"

text \<open>
  \<^verbatim>\<open>Math.max(Math.min(Math.round(v), hi), 0)\<close>; a \<^verbatim>\<open>NaN\<close> stays \<^verbatim>\<open>NaN\<close>.
\<close>

definition side_index :: "num \<Rightarrow> int \<Rightarrow> int option" where
  "side_index v hi = (case v of None \<Rightarrow> None | Some r \<Rightarrow> Some (max (min (js_round r) hi) 0))"

text \<open>
  \<^verbatim>\<open>greyscale[iy][ix]\<close>: a \<^verbatim>\<open>NaN\<close> row index reads the row \<^verbatim>\<open>undefined\<close>, and indexing
  that raises; a \<^verbatim>\<open>NaN\<close> column index reads \<^verbatim>\<open>undefined\<close>.
\<close>

definition side_sample :: "matrix \<Rightarrow> int option \<Rightarrow> int option \<Rightarrow> error + num" where
  "side_sample g iy ix =
     (case iy of
        None \<Rightarrow> Inl TypeError
      | Some y \<Rightarrow>
          (case row_get g y of
             Inl e \<Rightarrow> Inl e
           | Inr r \<Rightarrow> Inr (case ix of None \<Rightarrow> None | Some x \<Rightarrow> arr_get r x)))"

definition sides_at :: "real \<Rightarrow> matrix \<Rightarrow> matrix \<Rightarrow> matrix \<Rightarrow> nat \<Rightarrow> nat \<Rightarrow> error + (num \<times> num)" where
  "sides_at off gradX gradY g y x =
     (case gradUnitVector gradX gradY (int x) (int y) of
        Inl e \<Rightarrow> Inl e
      | Inr (guv_x, guv_y) \<Rightarrow>
          let wmax = row_len gradX (int y) - 1;
              hmax = int (length gradX) - 1;
              ix = side_index (num_add (Some (real x)) (num_mul (Some off) guv_y)) wmax;
              iy = side_index (num_sub (Some (real y)) (num_mul (Some off) guv_x)) hmax;
              ox = side_index (num_sub (Some (real x)) (num_mul (Some off) guv_y)) wmax;
              oy = side_index (num_add (Some (real y)) (num_mul (Some off) guv_x)) hmax
          in (case side_sample g iy ix of
                Inl e \<Rightarrow> Inl e
              | Inr i \<Rightarrow> (case side_sample g oy ox of Inl e \<Rightarrow> Inl e | Inr out \<Rightarrow> Inr (i, out))))"

record sides =
  sides_inside :: matrix
  sides_outside :: matrix

definition computeSides :: "real \<Rightarrow> matrix \<Rightarrow> matrix \<Rightarrow> matrix \<Rightarrow> error + sides" where
  "computeSides off gradX gradY g =
     (case emap (\<lambda>y. emap (sides_at off gradX gradY g y) [0..<nat (row_len gradX (int y))])
             [0..<length gradX] of
        Inl e \<Rightarrow> Inl e
      | Inr rows \<Rightarrow> Inr \<lparr> sides_inside = map (map fst) rows, sides_outside = map (map snd) rows \<rparr>)"

section \<open>The bucket queue\<close>

type_synonym point = "int \<times> int"  \<comment> \<open>\<^verbatim>\<open>{x, y}\<close>, compared structurally\<close>

text \<open>
  Modelled from the spec: the class \<^verbatim>\<open>BucketQueue\<close> of \<^verbatim>\<open>src/math/bucketQueue.js\<close>, which
  \<^verbatim>\<open>scissors.js\<close> imports and which is not among the sources. The spec describes it as
  an array of \<open>2 ^ bits\<close> buckets, each a FIFO list of pending pixels, indexed by the
  item's cost modulo the number of buckets, the cost being looked up lazily through
  the closure supplied at construction; \<^verbatim>\<open>pop\<close> returns the oldest item of the first
  non-empty bucket found by scanning forward (and around) from the bucket of the last
  dequeue and fails on an empty queue; \<^verbatim>\<open>remove\<close> takes a pushed item out and is a
  no-op when the item is absent; \<^verbatim>\<open>isEmpty\<close> tells whether no item is pending.

  The closure is the source's own (\<^verbatim>\<open>setPoint\<close>):
  \<^verbatim>\<open>function (p) { return Math.round(this.searchGran * this.costArr[p.y][p.x]); }\<close>,
  where \<^verbatim>\<open>this\<close> is the queue, \<^verbatim>\<open>searchGran\<close> the field \<^verbatim>\<open>setPoint\<close> copies into the queue
  and \<^verbatim>\<open>costArr\<close> the engine's live cost matrix, passed here as an argument.
\<close>

record bucket_queue =
  bq_bits :: nat
  bq_buckets :: "point list list"
  bq_loc :: nat
  bq_searchGran :: "int option"

definition bq_new :: "nat \<Rightarrow> bucket_queue" where
  "bq_new bits = \<lparr> bq_bits = bits, bq_buckets = replicate (2 ^ bits) [], bq_loc = 0,
                   bq_searchGran = None \<rparr>"

definition pq_cost :: "bucket_queue \<Rightarrow> matrix \<Rightarrow> point \<Rightarrow> error + int option" where
  "pq_cost q costArr p =
     (case row_get costArr (snd p) of
        Inl e \<Rightarrow> Inl e
      | Inr r \<Rightarrow>
          Inr (case num_mul (map_option real_of_int (bq_searchGran q)) (arr_get r (fst p)) of
                 None \<Rightarrow> None
               | Some c \<Rightarrow> Some (js_round c)))"

text \<open>A cost that is not a number designates no bucket.\<close>

definition bq_getBucket :: "bucket_queue \<Rightarrow> matrix \<Rightarrow> point \<Rightarrow> error + nat" where
  "bq_getBucket q costArr p =
     (case pq_cost q costArr p of
        Inl e \<Rightarrow> Inl e
      | Inr None \<Rightarrow> Inl TypeError
      | Inr (Some c) \<Rightarrow> Inr (nat (c mod 2 ^ bq_bits q)))"

definition bq_push :: "bucket_queue \<Rightarrow> matrix \<Rightarrow> point \<Rightarrow> error + bucket_queue" where
  "bq_push q costArr p =
     (case bq_getBucket q costArr p of
        Inl e \<Rightarrow> Inl e
      | Inr b \<Rightarrow> Inr (q\<lparr> bq_buckets := (bq_buckets q)[b := bq_buckets q ! b @ [p]] \<rparr>))"

definition bq_isEmpty :: "bucket_queue \<Rightarrow> bool" where
  "bq_isEmpty q = list_all (\<lambda>b. b = []) (bq_buckets q)"

definition bq_scan :: "bucket_queue \<Rightarrow> nat option" where
  "bq_scan q =
     (let n = length (bq_buckets q)
      in case filter (\<lambda>i. bq_buckets q ! i \<noteq> []) (map (\<lambda>k. (bq_loc q + k) mod n) [0..<n]) of
           [] \<Rightarrow> None
         | i # _ \<Rightarrow> Some i)"

definition bq_pop :: "bucket_queue \<Rightarrow> error + (point \<times> bucket_queue)" where
  "bq_pop q =
     (case bq_scan q of
        None \<Rightarrow> Inl QueueEmpty
      | Some i \<Rightarrow>
          Inr (hd (bq_buckets q ! i),
               q\<lparr> bq_buckets := (bq_buckets q)[i := tl (bq_buckets q ! i)], bq_loc := i \<rparr>))"

definition bq_remove :: "bucket_queue \<Rightarrow> point \<Rightarrow> bucket_queue" where
  "bq_remove q p = q\<lparr> bq_buckets := map (remove1 p) (bq_buckets q) \<rparr>"

section \<open>The engine\<close>

record scissors =
  width :: int
  height :: int
  curPoint :: "point option"
  searchGranBits :: nat
  searchGran :: int
  pointsPerPost :: nat
  greyscale :: "matrix option"
  laplace :: "matrix option"
  gradient :: "matrix option"
  gradX :: "matrix option"
  gradY :: "matrix option"
  inside :: "matrix option"
  outside :: "matrix option"
  parents :: "point option list list option"
  visited :: "bool option list list option"
  cost :: "matrix option"
  pq :: "bucket_queue option"
  working :: bool
  timeout_cleared :: bool
  trained :: bool
  trainingPoints :: "point list option"
  edgeWidth :: real
  trainingLength :: nat
  edgeGran :: nat
  edgeTraining :: "num list option"
  gradPointsNeeded :: nat
  gradGran :: nat
  gradTraining :: "num list option"
  insideGran :: nat
  insideTraining :: "num list option"
  outsideGran :: nat
  outsideTraining :: "num list option"

text \<open>
  \<^verbatim>\<open>a << b\<close> on 32-bit integers; the shift count is taken modulo 32, and an
  \<^verbatim>\<open>undefined\<close> count converts to 0.
\<close>

definition js_shl :: "int \<Rightarrow> int option \<Rightarrow> int" where
  "js_shl a b =
     sint (push_bit (nat ((case b of None \<Rightarrow> 0 | Some n \<Rightarrow> n) mod 32)) (word_of_int a :: 32 word))"

text \<open>
  The constructor. \<^verbatim>\<open>this.searchGran = 1 << this.earchGranBits\<close> reads a property
  \<^verbatim>\<open>earchGranBits\<close> that the object does not have, hence \<^verbatim>\<open>undefined\<close>. The fields
  \<^verbatim>\<open>inside\<close>, \<^verbatim>\<open>outside\<close>, \<^verbatim>\<open>visited\<close>, \<^verbatim>\<open>cost\<close> and \<^verbatim>\<open>pq\<close> are not assigned and start
  \<^verbatim>\<open>undefined\<close>.
\<close>

definition constructor :: scissors where
  "constructor =
     \<lparr> width = - 1, height = - 1, curPoint = None,
       searchGranBits = 8, searchGran = js_shl 1 None, pointsPerPost = 500,
       greyscale = None, laplace = None, gradient = None, gradX = None, gradY = None,
       inside = None, outside = None,
       parents = None, visited = None, cost = None, pq = None,
       working = False, timeout_cleared = False,
       trained = False, trainingPoints = None,
       edgeWidth = 2, trainingLength = 32,
       edgeGran = 256, edgeTraining = None,
       gradPointsNeeded = 32, gradGran = 1024, gradTraining = None,
       insideGran = 256, insideTraining = None,
       outsideGran = 256, outsideTraining = None \<rparr>"

type_synonym 'a outcome = "(error + 'a) \<times> scissors"

definition setWorking :: "bool \<Rightarrow> scissors \<Rightarrow> scissors" where
  "setWorking w s = s\<lparr> working := w \<rparr>"

definition setDimensions :: "int \<Rightarrow> int \<Rightarrow> scissors \<Rightarrow> scissors" where
  "setDimensions w h s = s\<lparr> width := w, height := h \<rparr>"

text \<open>
  \<^verbatim>\<open>setData\<close> assigns each field as soon as it is computed, so a builder that raises
  leaves the fields assigned before it.
\<close>

definition setData :: "nat list \<Rightarrow> scissors \<Rightarrow> unit outcome" where
  "setData d s =
     (if width s = - 1 \<or> height s = - 1 then (Inl DimensionsNotSet, s)
      else
        let g = computeGreyscale d (width s) (height s);
            s = s\<lparr> greyscale := Some g \<rparr>;
            s = s\<lparr> laplace := Some (computeLaplace g) \<rparr>
        in case computeGradient g of
             Inl e \<Rightarrow> (Inl e, s)
           | Inr gr \<Rightarrow>
               let s = s\<lparr> gradient := Some gr \<rparr>;
                   gx = computeGradX g;
                   s = s\<lparr> gradX := Some gx \<rparr>
               in case computeGradY g of
                    Inl e \<Rightarrow> (Inl e, s)
                  | Inr gy \<Rightarrow>
                      let s = s\<lparr> gradY := Some gy \<rparr>
                      in case computeSides (edgeWidth s) gx gy g of
                           Inl e \<Rightarrow> (Inl e, s)
                         | Inr sd \<Rightarrow>
                             let s = s\<lparr> inside := Some (sides_inside sd) \<rparr>;
                                 s = s\<lparr> outside := Some (sides_outside sd) \<rparr>;
                                 s = s\<lparr> edgeTraining := Some [] \<rparr>;
                                 s = s\<lparr> gradTraining := Some [] \<rparr>;
                                 s = s\<lparr> insideTraining := Some [] \<rparr>;
                                 s = s\<lparr> outsideTraining := Some [] \<rparr>
                             in (Inr (), s))"

subsection \<open>Training\<close>

definition getTrainingIdx :: "nat \<Rightarrow> num \<Rightarrow> int option" where
  "getTrainingIdx granularity v =
     (case num_mul (Some (real granularity - 1)) v of None \<Rightarrow> None | Some r \<Rightarrow> Some (js_round r))"

text \<open>
  A table lookup \<^verbatim>\<open>table[idx]\<close>: raises when the table is \<^verbatim>\<open>null\<close>; an index that is
  \<^verbatim>\<open>NaN\<close> or outside the table reads \<^verbatim>\<open>undefined\<close>.
\<close>

definition table_get :: "num list option \<Rightarrow> int option \<Rightarrow> error + num" where
  "table_get t i =
     (case t of
        None \<Rightarrow> Inl TypeError
      | Some xs \<Rightarrow> Inr (case i of None \<Rightarrow> None | Some k \<Rightarrow> arr_get xs k))"

definition getTrainedEdge :: "scissors \<Rightarrow> num \<Rightarrow> error + num" where
  "getTrainedEdge s v = table_get (edgeTraining s) (getTrainingIdx (edgeGran s) v)"

definition getTrainedGrad :: "scissors \<Rightarrow> num \<Rightarrow> error + num" where
  "getTrainedGrad s v = table_get (gradTraining s) (getTrainingIdx (gradGran s) v)"

definition getTrainedInside :: "scissors \<Rightarrow> num \<Rightarrow> error + num" where
  "getTrainedInside s v = table_get (insideTraining s) (getTrainingIdx (insideGran s) v)"

definition getTrainedOutside :: "scissors \<Rightarrow> num \<Rightarrow> error + num" where
  "getTrainedOutside s v = table_get (outsideTraining s) (getTrainingIdx (outsideGran s) v)"

text \<open>
  \<^verbatim>\<open>for (var i = 0; i < this.trainingLength && p; i++)\<close>: the first argument counts the
  iterations left; a \<^verbatim>\<open>null\<close> or \<^verbatim>\<open>undefined\<close> point ends the walk; a point whose row
  is missing from the parents matrix raises.
\<close>

fun walk_parents ::
  "nat \<Rightarrow> point option list list \<Rightarrow> point option \<Rightarrow> point list \<Rightarrow> error + point list" where
  "walk_parents 0 par p points = Inr points"
| "walk_parents (Suc n) par None points = Inr points"
| "walk_parents (Suc n) par (Some p) points =
     (case row_get par (snd p) of
        Inl e \<Rightarrow> Inl e
      | Inr r \<Rightarrow> walk_parents n par (arr_get r (fst p)) (points @ [p]))"

definition findTrainingPoints :: "scissors \<Rightarrow> point option \<Rightarrow> error + point list" where
  "findTrainingPoints s p =
     (case parents s of
        None \<Rightarrow> Inr []
      | Some par \<Rightarrow> walk_parents (trainingLength s) par p [])"

definition resetTraining :: "scissors \<Rightarrow> scissors" where
  "resetTraining s = s\<lparr> trained := False \<rparr>"

definition gaussianBlur :: "num list \<Rightarrow> num list \<Rightarrow> num list" where
  "gaussianBlur buffer out =
     (let b = (\<lambda>i. arr_get buffer i);
          c = (\<lambda>k v. num_mul (Some k) v);
          len = int (length buffer);
          out = arr_set out 0
                  (num_add (num_add (c 0.4 (b 0)) (c 0.5 (b 1))) (c 0.1 (b 1)));
          out = arr_set out 1
                  (num_add (num_add (num_add (c 0.25 (b 0)) (c 0.4 (b 1))) (c 0.25 (b 2)))
                     (c 0.1 (b 3)));
          out = fold (\<lambda>i out. arr_set out (int i)
                        (num_add (num_add (num_add (num_add
                           (c 0.05 (b (int i - 2))) (c 0.25 (b (int i - 1))))
                           (c 0.4 (b (int i)))) (c 0.25 (b (int i + 1))))
                           (c 0.05 (b (int i + 2)))))
                  [2..<nat (len - 2)] out;
          out = arr_set out (len - 2)
                  (num_add (num_add (num_add (c 0.25 (b (len - 1))) (c 0.4 (b (len - 2))))
                     (c 0.25 (b (len - 3)))) (c 0.1 (b (len - 4))));
          out = arr_set out (len - 1)
                  (num_add (num_add (c 0.4 (b (len - 1))) (c 0.5 (b (len - 2))))
                     (c 0.1 (b (len - 3))))
      in out)"

text \<open>
  The tally loop of \<^verbatim>\<open>calculateTraining\<close>: \<^verbatim>\<open>buffer[idx] += 1\<close> and
  \<^verbatim>\<open>maxVal = Math.max(maxVal, buffer[idx])\<close>. With an index that is \<^verbatim>\<open>NaN\<close> or
  negative the sum is stored under a key that is not an element. Reading a point of
  an input field that is \<^verbatim>\<open>null\<close>, or outside its rows, raises.
\<close>

fun training_tally ::
  "nat \<Rightarrow> matrix option \<Rightarrow> point list \<Rightarrow> num list \<times> num \<Rightarrow> error + (num list \<times> num)" where
  "training_tally granularity input [] acc = Inr acc"
| "training_tally granularity None (p # ps) acc = Inl TypeError"
| "training_tally granularity (Some inp) (p # ps) (buffer, maxVal) =
     (case row_get inp (snd p) of
        Inl e \<Rightarrow> Inl e
      | Inr r \<Rightarrow>
          (case getTrainingIdx granularity (arr_get r (fst p)) of
             None \<Rightarrow> training_tally granularity (Some inp) ps (buffer, None)
           | Some idx \<Rightarrow>
               let v = num_add (arr_get buffer idx) (Some 1)
               in training_tally granularity (Some inp) ps
                    (arr_set buffer idx v, num_max maxVal v)))"

definition calculateTraining ::
  "point list \<Rightarrow> nat \<Rightarrow> matrix option \<Rightarrow> num list option \<Rightarrow> error + num list" where
  "calculateTraining tps granularity input output =
     (case training_tally granularity input tps (replicate granularity (Some 0), Some 1) of
        Inl e \<Rightarrow> Inl e
      | Inr (buffer, maxVal) \<Rightarrow>
          let buffer = fold (\<lambda>i b. arr_set b (int i)
                                (num_sub (Some 1) (num_div (arr_get b (int i)) maxVal)))
                         [0..<granularity] buffer
          in (case output of
                None \<Rightarrow> Inl TypeError
              | Some out \<Rightarrow> Inr (gaussianBlur buffer out)))"

text \<open>
  \<^verbatim>\<open>addInStaticGrad(have, need)\<close>; its loop writes \<^verbatim>\<open>this.gradTraining[i]\<close>, which
  raises on a \<^verbatim>\<open>null\<close> table.
\<close>

definition addInStaticGrad :: "nat \<Rightarrow> nat \<Rightarrow> scissors \<Rightarrow> unit outcome" where
  "addInStaticGrad hv nd s =
     (if gradGran s = 0 then (Inr (), s)
      else (case gradTraining s of
              None \<Rightarrow> (Inl TypeError, s)
            | Some t \<Rightarrow>
                let t = fold (\<lambda>i t. arr_set t (int i)
                                (num_min (arr_get t (int i))
                                   (num_sub (Some 1)
                                      (num_div (Some (real i * (real nd - real hv)))
                                         (Some (real nd * real (gradGran s)))))))
                          [0..<gradGran s] t
                in (Inr (), s\<lparr> gradTraining := Some t \<rparr>)))"

text \<open>Sequencing of statements that may raise: the first error ends the method.\<close>

definition and_then :: "unit outcome \<Rightarrow> (scissors \<Rightarrow> unit outcome) \<Rightarrow> unit outcome" where
  "and_then r f = (case fst r of Inl e \<Rightarrow> (Inl e, snd r) | Inr u \<Rightarrow> f (snd r))"

text \<open>
  Each \<^verbatim>\<open>calculateTraining\<close> writes its table in place; the tables written before a
  call that raises stay written.
\<close>

definition train_edge :: "point list \<Rightarrow> scissors \<Rightarrow> unit outcome" where
  "train_edge tps s =
     (case calculateTraining tps (edgeGran s) (greyscale s) (edgeTraining s) of
        Inl e \<Rightarrow> (Inl e, s)
      | Inr t \<Rightarrow> (Inr (), s\<lparr> edgeTraining := Some t \<rparr>))"

definition train_grad :: "point list \<Rightarrow> scissors \<Rightarrow> unit outcome" where
  "train_grad tps s =
     (case calculateTraining tps (gradGran s) (gradient s) (gradTraining s) of
        Inl e \<Rightarrow> (Inl e, s)
      | Inr t \<Rightarrow> (Inr (), s\<lparr> gradTraining := Some t \<rparr>))"

definition train_inside :: "point list \<Rightarrow> scissors \<Rightarrow> unit outcome" where
  "train_inside tps s =
     (case calculateTraining tps (insideGran s) (inside s) (insideTraining s) of
        Inl e \<Rightarrow> (Inl e, s)
      | Inr t \<Rightarrow> (Inr (), s\<lparr> insideTraining := Some t \<rparr>))"

definition train_outside :: "point list \<Rightarrow> scissors \<Rightarrow> unit outcome" where
  "train_outside tps s =
     (case calculateTraining tps (outsideGran s) (outside s) (outsideTraining s) of
        Inl e \<Rightarrow> (Inl e, s)
      | Inr t \<Rightarrow> (Inr (), s\<lparr> outsideTraining := Some t \<rparr>))"

text \<open>
  \<^verbatim>\<open>doTraining\<close>. Fewer than 8 training points: the early \<^verbatim>\<open>return\<close>, after the
  points have been stored in \<^verbatim>\<open>this.trainingPoints\<close>.
\<close>

definition doTraining :: "point option \<Rightarrow> scissors \<Rightarrow> unit outcome" where
  "doTraining p s =
     (case findTrainingPoints s p of
        Inl e \<Rightarrow> (Inl e, s)
      | Inr tps \<Rightarrow>
          let s = s\<lparr> trainingPoints := Some tps \<rparr>
          in if length tps < 8 then (Inr (), s)
             else
               and_then (train_edge tps s) (\<lambda>s.
               and_then (train_grad tps s) (\<lambda>s.
               and_then (train_inside tps s) (\<lambda>s.
               and_then (train_outside tps s) (\<lambda>s.
               and_then (if length tps < gradPointsNeeded s
                         then addInStaticGrad (length tps) (gradPointsNeeded s) s
                         else (Inr (), s)) (\<lambda>s.
               (Inr (), s\<lparr> trained := True \<rparr>)))))))"

subsection \<open>The cost function\<close>

definition ebind :: "error + 'a \<Rightarrow> ('a \<Rightarrow> error + 'b) \<Rightarrow> error + 'b" where
  "ebind m f = (case m of Inl e \<Rightarrow> Inl e | Inr v \<Rightarrow> f v)"

text \<open>
  \<^verbatim>\<open>this.field[y][x]\<close>: raises when the field is \<^verbatim>\<open>null\<close> or \<^verbatim>\<open>undefined\<close> or has no
  row \<open>y\<close>.
\<close>

definition field_get :: "'a option list list option \<Rightarrow> int \<Rightarrow> int \<Rightarrow> error + 'a option" where
  "field_get f y x =
     (case f of
        None \<Rightarrow> Inl TypeError
      | Some m \<Rightarrow> (case row_get m y of Inl e \<Rightarrow> Inl e | Inr r \<Rightarrow> Inr (arr_get r x)))"

definition field_set ::
  "'a option list list option \<Rightarrow> int \<Rightarrow> int \<Rightarrow> 'a option \<Rightarrow> error + 'a option list list" where
  "field_set f y x v =
     (case f of
        None \<Rightarrow> Inl TypeError
      | Some m \<Rightarrow>
          (case row_get m y of
             Inl e \<Rightarrow> Inl e
           | Inr r \<Rightarrow> Inr (m[nat y := arr_set r x v])))"

definition scissors_gradDirection :: "scissors \<Rightarrow> int \<Rightarrow> int \<Rightarrow> int \<Rightarrow> int \<Rightarrow> error + num" where
  "scissors_gradDirection s px py qx qy =
     (case gradX s of
        None \<Rightarrow> Inl TypeError
      | Some gx \<Rightarrow>
          (case gradY s of
             None \<Rightarrow> Inl TypeError
           | Some gy \<Rightarrow> gradDirection gx gy px py qx qy))"

definition weigh3 :: "real \<Rightarrow> num \<Rightarrow> real \<Rightarrow> num \<Rightarrow> real \<Rightarrow> num \<Rightarrow> num" where
  "weigh3 a u b v c w =
     num_add (num_add (num_mul (Some a) u) (num_mul (Some b) v)) (num_mul (Some c) w)"

definition dist_cost :: "scissors \<Rightarrow> int \<Rightarrow> int \<Rightarrow> int \<Rightarrow> int \<Rightarrow> error + num" where
  "dist_cost s px py qx qy =
     ebind (field_get (gradient s) qy qx) (\<lambda>grad.
       let grad = (if px = qx \<or> py = qy then num_mul grad (Some SQRT1_2) else grad) in
     ebind (field_get (laplace s) qy qx) (\<lambda>lap.
     ebind (scissors_gradDirection s px py qx qy) (\<lambda>dir.
       if trained s then
         ebind (getTrainedGrad s grad) (\<lambda>gradT.
         ebind (ebind (field_get (greyscale s) py px) (getTrainedEdge s)) (\<lambda>edgeT.
         ebind (ebind (field_get (inside s) py px) (getTrainedInside s)) (\<lambda>insideT.
         ebind (ebind (field_get (outside s) py px) (getTrainedOutside s)) (\<lambda>outsideT.
           Inr (weigh3 0.3 gradT 0.3 lap 0.1
                  (num_add (num_add (num_add dir edgeT) insideT) outsideT))))))
       else Inr (weigh3 0.43 grad 0.43 lap 0.11 dir))))"

definition adj :: "scissors \<Rightarrow> point \<Rightarrow> error + point list" where
  "adj s p =
     (case greyscale s of
        None \<Rightarrow> Inl TypeError
      | Some g \<Rightarrow>
          (case row_get g 0 of
             Inl e \<Rightarrow> Inl e
           | Inr g0 \<Rightarrow>
               let sx = max (fst p - 1) 0;
                   sy = max (snd p - 1) 0;
                   ex = min (fst p + 1) (int (length g0) - 1);
                   ey = min (snd p + 1) (int (length g) - 1)
               in Inr (concat (map (\<lambda>y. filter (\<lambda>c. c \<noteq> p) (map (\<lambda>x. (x, y)) [sx..ex]))
                                [sy..ey]))))"

subsection \<open>The search\<close>

definition MAX_VALUE :: real where
  "MAX_VALUE = (2 ^ 53 - 1) * 2 ^ 971"

definition setPoint :: "point \<Rightarrow> scissors \<Rightarrow> unit outcome" where
  "setPoint sp s =
     (let s = setWorking True s;
          s = s\<lparr> curPoint := Some sp \<rparr>;
          s = s\<lparr> visited := Some (map (\<lambda>y. map (\<lambda>x. Some False) [0..<nat (width s)])
                                   [0..<nat (height s)]) \<rparr>;
          s = s\<lparr> parents := Some (map (\<lambda>y. []) [0..<nat (height s)]) \<rparr>;
          c = map (\<lambda>y. map (\<lambda>x. Some MAX_VALUE) [0..<nat (width s)]) [0..<nat (height s)];
          s = s\<lparr> cost := Some c \<rparr>;
          q = (bq_new (searchGranBits s))\<lparr> bq_searchGran := Some (searchGran s) \<rparr>;
          s = s\<lparr> pq := Some q \<rparr>
      in case bq_push q c sp of
           Inl e \<Rightarrow> (Inl e, s)
         | Inr q \<Rightarrow>
             let s = s\<lparr> pq := Some q \<rparr>
             in (case field_set (cost s) (snd sp) (fst sp) (Some 0) of
                   Inl e \<Rightarrow> (Inl e, s)
                 | Inr c \<Rightarrow> (Inr (), s\<lparr> cost := Some c \<rparr>)))"

text \<open>
  The body of the inner loop of \<^verbatim>\<open>doWork\<close>, for the popped pixel \<open>p\<close> and one neighbour
  \<open>q\<close>. The test is \<^verbatim>\<open>pqCost < this.cost[q.y][q.x]\<close> alone; \<^verbatim>\<open>this.visited\<close> is not read.
\<close>

definition relax :: "point \<Rightarrow> point \<Rightarrow> scissors \<Rightarrow> unit outcome" where
  "relax p q s =
     (case ebind (field_get (cost s) (snd p) (fst p)) (\<lambda>cp.
           ebind (dist_cost s (fst p) (snd p) (fst q) (snd q)) (\<lambda>d.
           ebind (field_get (cost s) (snd q) (fst q)) (\<lambda>cq. Inr (num_add cp d, cq)))) of
        Inl e \<Rightarrow> (Inl e, s)
      | Inr (pqCost, cq) \<Rightarrow>
          if num_lt pqCost cq then
            (case pq s of
               None \<Rightarrow> (Inl TypeError, s)
             | Some qu \<Rightarrow>
                 let s = (if cq \<noteq> Some MAX_VALUE then s\<lparr> pq := Some (bq_remove qu q) \<rparr> else s)
                 in (case field_set (cost s) (snd q) (fst q) pqCost of
                       Inl e \<Rightarrow> (Inl e, s)
                     | Inr c \<Rightarrow>
                         let s = s\<lparr> cost := Some c \<rparr>
                         in (case field_set (parents s) (snd q) (fst q) (Some p) of
                               Inl e \<Rightarrow> (Inl e, s)
                             | Inr par \<Rightarrow>
                                 let s = s\<lparr> parents := Some par \<rparr>
                                 in (case pq s of
                                       None \<Rightarrow> (Inl TypeError, s)
                                     | Some qu \<Rightarrow>
                                         (case bq_push qu c q of
                                            Inl e \<Rightarrow> (Inl e, s)
                                          | Inr qu \<Rightarrow> (Inr (), s\<lparr> pq := Some qu \<rparr>))))))
          else (Inr (), s))"

fun relax_all :: "point \<Rightarrow> point list \<Rightarrow> scissors \<Rightarrow> unit outcome" where
  "relax_all p [] s = (Inr (), s)"
| "relax_all p (q # qs) s = and_then (relax p q s) (relax_all p qs)"

text \<open>
  One iteration of the outer loop, once the queue is known to be non-empty: pop,
  record the pixel with its parent entry, mark it visited, relax its neighbours.
\<close>

definition expand :: "scissors \<Rightarrow> (point \<times> point option) outcome" where
  "expand s =
     (case pq s of
        None \<Rightarrow> (Inl TypeError, s)
      | Some qu \<Rightarrow>
          (case bq_pop qu of
             Inl e \<Rightarrow> (Inl e, s)
           | Inr (p, qu) \<Rightarrow>
               let s = s\<lparr> pq := Some qu \<rparr>
               in (case field_get (parents s) (snd p) (fst p) of
                     Inl e \<Rightarrow> (Inl e, s)
                   | Inr par \<Rightarrow>
                       (case field_set (visited s) (snd p) (fst p) (Some True) of
                          Inl e \<Rightarrow> (Inl e, s)
                        | Inr v \<Rightarrow>
                            let s = s\<lparr> visited := Some v \<rparr>
                            in (case adj s p of
                                  Inl e \<Rightarrow> (Inl e, s)
                                | Inr adjList \<Rightarrow>
                                    (case relax_all p adjList s of
                                       (Inl e, s) \<Rightarrow> (Inl e, s)
                                     | (Inr u, s) \<Rightarrow> (Inr (p, par), s)))))))"

text \<open>
  \<^verbatim>\<open>while (!this.pq.isEmpty() && pointCount < this.pointsPerPost)\<close>: the first argument
  is \<^verbatim>\<open>pointsPerPost - pointCount\<close>. The batch \<^verbatim>\<open>newPoints\<close>, a flat array of pixels
  each followed by its parent entry, is a list of pairs.
\<close>

fun doWork_loop ::
  "nat \<Rightarrow> scissors \<Rightarrow> (point \<times> point option) list \<Rightarrow> (point \<times> point option) list outcome" where
  "doWork_loop n s newPoints =
     (case pq s of
        None \<Rightarrow> (Inl TypeError, s)
      | Some qu \<Rightarrow>
          if bq_isEmpty qu then (Inr newPoints, s)
          else (case n of
                  0 \<Rightarrow> (Inr newPoints, s)
                | Suc m \<Rightarrow>
                    (case expand s of
                       (Inl e, s) \<Rightarrow> (Inl e, s)
                     | (Inr pr, s) \<Rightarrow> doWork_loop m s (newPoints @ [pr]))))"

text \<open>\<^verbatim>\<open>doWork\<close> returns \<^verbatim>\<open>undefined\<close> (here \<open>None\<close>) when the engine is not working.\<close>

definition doWork :: "scissors \<Rightarrow> (point \<times> point option) list option outcome" where
  "doWork s =
     (if \<not> working s then (Inr None, s)
      else
        let s = s\<lparr> timeout_cleared := True \<rparr>
        in (case doWork_loop (pointsPerPost s) s [] of
              (Inl e, s) \<Rightarrow> (Inl e, s)
            | (Inr newPoints, s) \<Rightarrow> (Inr (Some newPoints), s)))"

subsection \<open>The interface\<close>

text \<open>The methods of the class that assign fields, as calls on the engine.\<close>

datatype call =
    SetWorking bool
  | SetDimensions int int
  | SetData "nat list"
  | ResetTraining
  | DoTraining "point option"
  | SetPoint point
  | DoWork

fun apply_call :: "call \<Rightarrow> scissors \<Rightarrow> scissors" where
  "apply_call (SetWorking b) s = setWorking b s"
| "apply_call (SetDimensions w h) s = setDimensions w h s"
| "apply_call (SetData d) s = snd (setData d s)"
| "apply_call ResetTraining s = resetTraining s"
| "apply_call (DoTraining p) s = snd (doTraining p s)"
| "apply_call (SetPoint sp) s = snd (setPoint sp s)"
| "apply_call DoWork s = snd (doWork s)"

subsection \<open>Shapes and ranges of the fields\<close>

text \<open>
  Predicates used to state the properties: a matrix of \<open>h\<close> rows of \<open>w\<close> entries, a
  matrix without holes or \<^verbatim>\<open>NaN\<close>, and ranges of single entries.
\<close>

definition rect :: "'a list list \<Rightarrow> nat \<Rightarrow> nat \<Rightarrow> bool" where
  "rect m h w \<longleftrightarrow> length m = h \<and> (\<forall>r \<in> set m. length r = w)"

definition numeric :: "matrix \<Rightarrow> bool" where
  "numeric m \<longleftrightarrow> (\<forall>r \<in> set m. \<forall>v \<in> set r. v \<noteq> None)"

definition in_unit :: "num \<Rightarrow> bool" where
  "in_unit v \<longleftrightarrow> (\<forall>c. v = Some c \<longrightarrow> 0 \<le> c \<and> c \<le> 1)"

definition below :: "num \<Rightarrow> num \<Rightarrow> bool" where
  "below mx v \<longleftrightarrow> (\<forall>c. v = Some c \<longrightarrow> 0 \<le> c \<and> (\<forall>m. mx = Some m \<longrightarrow> c \<le> m))"

definition bit01 :: "num \<Rightarrow> bool" where
  "bit01 v \<longleftrightarrow> v = None \<or> v = Some 0 \<or> v = Some 1"

definition nonneg :: "num \<Rightarrow> bool" where
  "nonneg v \<longleftrightarrow> (\<forall>c. v = Some c \<longrightarrow> 0 \<le> c)"

definition table_ok :: "num list option \<Rightarrow> bool" where
  "table_ok t \<longleftrightarrow> (\<exists>xs. t = Some xs \<and> list_all nonneg xs)"

definition fields_ok :: "scissors \<Rightarrow> nat \<Rightarrow> nat \<Rightarrow> bool" where
  "fields_ok s h w \<longleftrightarrow>
     2 \<le> h \<and> 2 \<le> w \<and> width s = int w \<and> height s = int h \<and>
     (\<exists>g. greyscale s = Some g \<and> rect g h w) \<and>
     (\<exists>l. laplace s = Some l \<and> length l = h \<and> list_all (list_all bit01) l) \<and>
     (\<exists>gr. gradient s = Some gr \<and> rect gr h w \<and> list_all (list_all in_unit) gr) \<and>
     (\<exists>gx. gradX s = Some gx \<and> rect gx h w) \<and>
     (\<exists>gy. gradY s = Some gy \<and> rect gy h w) \<and>
     (\<exists>i. inside s = Some i \<and> rect i h w) \<and>
     (\<exists>ou. outside s = Some ou \<and> rect ou h w) \<and>
     table_ok (edgeTraining s) \<and> table_ok (gradTraining s) \<and>
     table_ok (insideTraining s) \<and> table_ok (outsideTraining s)"

subsection \<open>Test images\<close>

text \<open>
  A white 5 by 5 image with a black centre pixel, and a 4 by 3 image whose two left
  columns are black and two right columns white.
\<close>

definition img_dot :: "nat list" where
  "img_dot = concat (map (\<lambda>i. if i = 12 then [0, 0, 0, 255] else [255, 255, 255, 255]) [0..<25])"

definition img_step :: "nat list" where
  "img_step = concat (map (\<lambda>i. if i mod 4 < 2 then [0, 0, 0, 255] else [255, 255, 255, 255]) [0..<12])"

text \<open>
  A 5 by 6 image with a black groove in a white field: row by row, 0 is a black pixel
  and 1 a white one.
\<close>

definition img_groove :: "nat list" where
  "img_groove = concat (map (\<lambda>b. if b = (0 :: nat) then [0, 0, 0, 255] else [255, 255, 255, 255])
     [0, 0, 0, 0, 0,
      1, 0, 0, 1, 1,
      1, 1, 0, 1, 1,
      1, 1, 0, 1, 1,
      1, 1, 0, 0, 1,
      1, 1, 0, 0, 1])"

text \<open>
  The arc cosine as a fraction of a half turn, to state the values of
  \<^verbatim>\<open>gradDirection\<close>.
\<close>

definition turns :: "real \<Rightarrow> real" where
  "turns a = arccos a / pi"

text \<open>
  The five matrices that \<^verbatim>\<open>setData\<close> builds from the groove image, written out; they
  are shown below to be the values of the field builders. In the gradient the last
  column is \<^verbatim>\<open>NaN\<close> and in the Laplace field the entries \<open>(0, y)\<close> of the four outer rows are
  holes.
\<close>

definition groove_greyscale :: matrix where
  "groove_greyscale =
     [[Some 0, Some 0, Some 0, Some 0, Some 0],
      [Some 1, Some 0, Some 0, Some 1, Some 1],
      [Some 1, Some 1, Some 0, Some 1, Some 1],
      [Some 1, Some 1, Some 0, Some 1, Some 1],
      [Some 1, Some 1, Some 0, Some 0, Some 1],
      [Some 1, Some 1, Some 0, Some 0, Some 1]]"

definition groove_gradient :: matrix where
  "groove_gradient =
     [[Some 0, Some 1, Some 1, Some 0, None],
      [Some 0, Some 0, Some 0, Some 1, None],
      [Some 1, Some 0, Some 0, Some 1, None],
      [Some 1, Some 0, Some 0, Some 0, None],
      [Some 1, Some 0, Some 1, Some 0, None],
      [Some 1, Some 0, Some 1, Some 0, None]]"

definition groove_laplace :: matrix where
  "groove_laplace =
     [[None, Some 1, Some 1, Some 1, Some 1, Some 1],
      [None, Some 1, Some 1, Some 1, Some 1, Some 1],
      [Some 1, Some 1, Some 0, Some 1, Some 1],
      [Some 1, Some 1, Some 0, Some 1, Some 1],
      [None, Some 1, Some 1, Some 1, Some 1, Some 1],
      [None, Some 1, Some 1, Some 1, Some 1, Some 1]]"

definition groove_gradX :: matrix where
  "groove_gradX =
     [[Some 0, Some 0, Some 0, Some 0, Some 0],
      [Some (- 1), Some 0, Some 1, Some 0, Some 0],
      [Some 0, Some (- 1), Some 1, Some 0, Some 0],
      [Some 0, Some (- 1), Some 1, Some 0, Some 0],
      [Some 0, Some (- 1), Some 0, Some 1, Some 1],
      [Some 0, Some (- 1), Some 0, Some 1, Some 1]]"

definition groove_gradY :: matrix where
  "groove_gradY =
     [[Some (- 1), Some 0, Some 0, Some (- 1), Some (- 1)],
      [Some 0, Some (- 1), Some 0, Some 0, Some 0],
      [Some 0, Some 0, Some 0, Some 0, Some 0],
      [Some 0, Some 0, Some 0, Some 1, Some 0],
      [Some 0, Some 0, Some 0, Some 0, Some 0],
      [Some 0, Some 0, Some 0, Some 0, Some 0]]"

text \<open>
  The engine after \<^verbatim>\<open>setDimensions(5, 6)\<close> and \<^verbatim>\<open>setData\<close> on the groove image.
\<close>

definition groove_engine :: scissors where
  "groove_engine = snd (setData img_groove (setDimensions 5 6 constructor))"

subsection \<open>Search states\<close>

text \<open>
  The entry of a field at a pixel, \<^verbatim>\<open>undefined\<close> also when the field or the row is missing:
  a read that does not raise, to state properties.
\<close>

definition cell :: "'a option list list option \<Rightarrow> point \<Rightarrow> 'a option" where
  "cell f p = (case f of None \<Rightarrow> None
             | Some m \<Rightarrow> if 0 \<le> snd p \<and> nat (snd p) < length m
                        then arr_get (m ! nat (snd p)) (fst p) else None)"

text \<open>
  The engine with the fields that the search assigns erased; \<^verbatim>\<open>setPoint\<close> and \<^verbatim>\<open>doWork\<close>
  leave this part as it is.
\<close>

definition static :: "scissors \<Rightarrow> scissors" where
  "static s = s\<lparr> curPoint := None, parents := None, visited := None, cost := None, pq := None,
                working := False, timeout_cleared := False \<rparr>"

text \<open>
  The pixels pending in a queue, and in the engine's queue; a pixel inside an
  \<open>h\<close> by \<open>w\<close> image.
\<close>

definition queue_items :: "bucket_queue \<Rightarrow> point set" where
  "queue_items q = (\<Union>b \<in> set (bq_buckets q). set b)"

definition in_bounds :: "nat \<Rightarrow> nat \<Rightarrow> point \<Rightarrow> bool" where
  "in_bounds h w p \<longleftrightarrow> 0 \<le> fst p \<and> fst p < int w \<and> 0 \<le> snd p \<and> snd p < int h"

definition pending :: "scissors \<Rightarrow> point set" where
  "pending s = (case pq s of None \<Rightarrow> {} | Some q \<Rightarrow> queue_items q)"

text \<open>
  The invariant of a search from \<open>seed\<close> on an \<open>h\<close> by \<open>w\<close> image: the fields are built,
  the three matrices of the search have \<open>h\<close> rows, the queue has its \<open>2 ^ bits\<close> buckets,
  every pending pixel lies in the image and but for the seed has a parent, the seed
  has cost 0 and no parent, every cost in the image is a number at least 0, and every
  visited pixel lies in the image.
\<close>

definition searching :: "nat \<Rightarrow> nat \<Rightarrow> point \<Rightarrow> scissors \<Rightarrow> bool" where
  "searching h w seed s \<longleftrightarrow>
     fields_ok s h w \<and> in_bounds h w seed \<and>
     (\<exists>m. parents s = Some m \<and> length m = h) \<and>
     (\<exists>m. visited s = Some m \<and> length m = h) \<and>
     (\<exists>m. cost s = Some m \<and> length m = h) \<and>
     (\<exists>q. pq s = Some q \<and> length (bq_buckets q) = 2 ^ bq_bits q \<and> bq_searchGran q \<noteq> None) \<and>
     (\<forall>p \<in> pending s. in_bounds h w p \<and> (p \<noteq> seed \<longrightarrow> cell (parents s) p \<noteq> None)) \<and>
     cell (cost s) seed = Some 0 \<and> cell (parents s) seed = None \<and>
     (\<forall>p. in_bounds h w p \<longrightarrow> (\<exists>c. cell (cost s) p = Some c \<and> 0 \<le> c)) \<and>
     (\<forall>p. cell (visited s) p = Some True \<longrightarrow> in_bounds h w p)"

text \<open>
  From one state to a later one: at every pixel the cost and the parent entry are as
  before, or the cost is strictly lower; and every visited pixel is still visited.
\<close>

definition lowered :: "scissors \<Rightarrow> scissors \<Rightarrow> bool" where
  "lowered s s' \<longleftrightarrow>
     (\<forall>p. (cell (cost s') p = cell (cost s) p \<and> cell (parents s') p = cell (parents s) p) \<or>
          (\<exists>c c'. cell (cost s) p = Some c \<and> cell (cost s') p = Some c' \<and> c' < c))"

definition stays_visited :: "scissors \<Rightarrow> scissors \<Rightarrow> bool" where
  "stays_visited s s' \<longleftrightarrow>
     (\<forall>p. cell (visited s) p = Some True \<longrightarrow> cell (visited s') p = Some True)"

text \<open>
  The engine with the data of a \<open>w\<close> by \<open>h\<close> image, the same engine after
  \<^verbatim>\<open>setPoint(seed)\<close>, and the state after \<open>n\<close> further calls of \<^verbatim>\<open>doWork\<close>.
\<close>

definition built :: "nat list \<Rightarrow> nat \<Rightarrow> nat \<Rightarrow> scissors" where
  "built d w h = snd (setData d (setDimensions (int w) (int h) constructor))"

definition seeded :: "nat list \<Rightarrow> nat \<Rightarrow> nat \<Rightarrow> point \<Rightarrow> scissors" where
  "seeded d w h seed = snd (setPoint seed (built d w h))"

definition after_doWork :: "nat \<Rightarrow> scissors \<Rightarrow> scissors" where
  "after_doWork n s = ((\<lambda>t. snd (doWork t)) ^^ n) s"

text \<open>
  The state after \<open>n\<close> iterations of the loop of \<^verbatim>\<open>doWork\<close>.
\<close>

fun expands :: "nat \<Rightarrow> scissors \<Rightarrow> scissors" where
  "expands 0 s = s"
| "expands (Suc n) s = snd (expand (expands n s))"

text \<open>
  The first \<^verbatim>\<open>doWork\<close> on the groove image seeded at \<open>(3, 3)\<close> enters its loop in the
  state \<open>groove_search\<close>. The matrices and the queue of that state, and of the states
  after one, two and three iterations, written out; they are shown below to be the
  values computed. The queue has 256 buckets, of which only the first two are in use.
\<close>

definition groove_search :: scissors where
  "groove_search = (seeded img_groove 5 6 (3, 3))\<lparr> timeout_cleared := True \<rparr>"

definition groove0_parents :: "point option list list" where
  "groove0_parents =
     [[],
      [],
      [],
      [],
      [],
      []]"

definition groove0_visited :: "bool option list list" where
  "groove0_visited =
     [[Some False, Some False, Some False, Some False, Some False],
      [Some False, Some False, Some False, Some False, Some False],
      [Some False, Some False, Some False, Some False, Some False],
      [Some False, Some False, Some False, Some False, Some False],
      [Some False, Some False, Some False, Some False, Some False],
      [Some False, Some False, Some False, Some False, Some False]]"

definition groove0_cost :: matrix where
  "groove0_cost =
     [[Some MAX_VALUE, Some MAX_VALUE, Some MAX_VALUE, Some MAX_VALUE, Some MAX_VALUE],
      [Some MAX_VALUE, Some MAX_VALUE, Some MAX_VALUE, Some MAX_VALUE, Some MAX_VALUE],
      [Some MAX_VALUE, Some MAX_VALUE, Some MAX_VALUE, Some MAX_VALUE, Some MAX_VALUE],
      [Some MAX_VALUE, Some MAX_VALUE, Some MAX_VALUE, Some 0, Some MAX_VALUE],
      [Some MAX_VALUE, Some MAX_VALUE, Some MAX_VALUE, Some MAX_VALUE, Some MAX_VALUE],
      [Some MAX_VALUE, Some MAX_VALUE, Some MAX_VALUE, Some MAX_VALUE, Some MAX_VALUE]]"

definition groove0_pq :: bucket_queue where
  "groove0_pq = \<lparr> bq_bits = 8, bq_buckets = [(3, 3)] # [] # replicate 254 [],
     bq_loc = 0, bq_searchGran = Some 1 \<rparr>"

definition groove1_parents :: "point option list list" where
  "groove1_parents =
     [[],
      [],
      [None, None, Some (3, 3), Some (3, 3)],
      [None, None, Some (3, 3)],
      [None, None, Some (3, 3), Some (3, 3)],
      []]"

definition groove1_visited :: "bool option list list" where
  "groove1_visited =
     [[Some False, Some False, Some False, Some False, Some False],
      [Some False, Some False, Some False, Some False, Some False],
      [Some False, Some False, Some False, Some False, Some False],
      [Some False, Some False, Some False, Some True, Some False],
      [Some False, Some False, Some False, Some False, Some False],
      [Some False, Some False, Some False, Some False, Some False]]"

definition groove1_cost :: matrix where
  "groove1_cost =
     [[Some MAX_VALUE, Some MAX_VALUE, Some MAX_VALUE, Some MAX_VALUE, Some MAX_VALUE],
      [Some MAX_VALUE, Some MAX_VALUE, Some MAX_VALUE, Some MAX_VALUE, Some MAX_VALUE],
      [Some MAX_VALUE, Some MAX_VALUE, Some (11 / 150), Some (43 / 100 * SQRT1_2 + 151 / 300), Some MAX_VALUE],
      [Some MAX_VALUE, Some MAX_VALUE, Some (11 / 300), Some 0, Some MAX_VALUE],
      [Some MAX_VALUE, Some MAX_VALUE, Some (183 / 200), Some (27 / 50), Some MAX_VALUE],
      [Some MAX_VALUE, Some MAX_VALUE, Some MAX_VALUE, Some MAX_VALUE, Some MAX_VALUE]]"

definition groove1_pq :: bucket_queue where
  "groove1_pq = \<lparr> bq_bits = 8, bq_buckets = [(2, 2), (2, 3)] # [(3, 2), (2, 4), (3, 4)] # replicate 254 [],
     bq_loc = 0, bq_searchGran = Some 1 \<rparr>"

definition groove2_parents :: "point option list list" where
  "groove2_parents =
     [[],
      [None, Some (2, 2), Some (2, 2), Some (2, 2)],
      [None, Some (2, 2), Some (3, 3), Some (3, 3)],
      [None, Some (2, 2), Some (3, 3)],
      [None, None, Some (3, 3), Some (3, 3)],
      []]"

definition groove2_visited :: "bool option list list" where
  "groove2_visited =
     [[Some False, Some False, Some False, Some False, Some False],
      [Some False, Some False, Some False, Some False, Some False],
      [Some False, Some False, Some True, Some False, Some False],
      [Some False, Some False, Some False, Some True, Some False],
      [Some False, Some False, Some False, Some False, Some False],
      [Some False, Some False, Some False, Some False, Some False]]"

definition groove2_cost :: matrix where
  "groove2_cost =
     [[Some MAX_VALUE, Some MAX_VALUE, Some MAX_VALUE, Some MAX_VALUE, Some MAX_VALUE],
      [Some MAX_VALUE, Some (27 / 50), Some (151 / 300), Some (593 / 600), Some MAX_VALUE],
      [Some MAX_VALUE, Some (173 / 300), Some (11 / 150), Some (43 / 100 * SQRT1_2 + 151 / 300), Some MAX_VALUE],
      [Some MAX_VALUE, Some (173 / 300), Some (11 / 300), Some 0, Some MAX_VALUE],
      [Some MAX_VALUE, Some MAX_VALUE, Some (183 / 200), Some (27 / 50), Some MAX_VALUE],
      [Some MAX_VALUE, Some MAX_VALUE, Some MAX_VALUE, Some MAX_VALUE, Some MAX_VALUE]]"

definition groove2_pq :: bucket_queue where
  "groove2_pq = \<lparr> bq_bits = 8, bq_buckets = [(2, 3)] # [(3, 2), (2, 4), (3, 4), (1, 1), (2, 1), (3, 1), (1, 2), (1, 3)] # replicate 254 [],
     bq_loc = 0, bq_searchGran = Some 1 \<rparr>"

definition groove3_parents :: "point option list list" where
  "groove3_parents =
     [[],
      [None, Some (2, 2), Some (2, 2), Some (2, 2)],
      [None, Some (2, 3), Some (2, 3), Some (3, 3)],
      [None, Some (2, 3), Some (3, 3)],
      [None, Some (2, 3), Some (2, 3), Some (2, 3)],
      []]"

definition groove3_visited :: "bool option list list" where
  "groove3_visited =
     [[Some False, Some False, Some False, Some False, Some False],
      [Some False, Some False, Some False, Some False, Some False],
      [Some False, Some False, Some True, Some False, Some False],
      [Some False, Some False, Some True, Some True, Some False],
      [Some False, Some False, Some False, Some False, Some False],
      [Some False, Some False, Some False, Some False, Some False]]"

definition groove3_cost :: matrix where
  "groove3_cost =
     [[Some MAX_VALUE, Some MAX_VALUE, Some MAX_VALUE, Some MAX_VALUE, Some MAX_VALUE],
      [Some MAX_VALUE, Some (27 / 50), Some (151 / 300), Some (593 / 600), Some MAX_VALUE],
      [Some MAX_VALUE, Some (27 / 50), Some (11 / 300), Some (43 / 100 * SQRT1_2 + 151 / 300), Some MAX_VALUE],
      [Some MAX_VALUE, Some (27 / 50), Some (11 / 300), Some 0, Some MAX_VALUE],
      [Some MAX_VALUE, Some (27 / 50), Some (43 / 100 * SQRT1_2 + 151 / 300), Some (151 / 300), Some MAX_VALUE],
      [Some MAX_VALUE, Some MAX_VALUE, Some MAX_VALUE, Some MAX_VALUE, Some MAX_VALUE]]"

definition groove3_pq :: bucket_queue where
  "groove3_pq = \<lparr> bq_bits = 8, bq_buckets = [(2, 2)] # [(3, 2), (1, 1), (2, 1), (3, 1), (1, 2), (1, 3), (1, 4), (2, 4), (3, 4)] # replicate 254 [],
     bq_loc = 0, bq_searchGran = Some 1 \<rparr>"

section \<open>Properties\<close>

declare doWork_loop.simps [simp del]

subsection \<open>The queue's resolution\<close>

lemma js_shl_1_None: "js_shl 1 None = 1"
  by (simp add: js_shl_def)

text \<open>
  C3. The claim: with the default configuration the multiplier \<^verbatim>\<open>searchGran\<close> handed to
  the queue's cost closure is \<open>2 ^ searchGranBits = 256\<close>, so that a cost \<open>c\<close> is
  quantized to \<open>round (256 * c)\<close>. The code: the constructor computes
  \<^verbatim>\<open>1 << this.earchGranBits\<close>, the shift count is \<^verbatim>\<open>undefined\<close>, and the multiplier is
  1 while \<open>2 ^ searchGranBits\<close> is 256; \<^verbatim>\<open>setPoint\<close> copies that 1 into the queue, whose
  closure quantizes the cost 0.3 to \<open>round 0.3 = 0\<close> and not to \<open>round 76.8 = 77\<close>.
\<close>

theorem searchGran_default_is_one:
  "searchGran constructor = 1 \<and>
   (2 :: int) ^ searchGranBits constructor = 256 \<and>
   map_option bq_searchGran (pq (snd (setPoint sp constructor))) = Some (Some 1) \<and>
   pq_cost ((bq_new 8)\<lparr> bq_searchGran := Some (searchGran constructor) \<rparr>)
     [[Some (3 / 10)]] (0, 0) = Inr (Some 0) \<and>
   js_round (256 * (3 / 10)) = 77"
  by (simp add: constructor_def js_shl_def setPoint_def setWorking_def Let_def pq_cost_def
      bq_new_def row_get_def arr_get_def num_mul_def js_round_def bq_push_def bq_getBucket_def
      field_set_def split: sum.splits)

subsection \<open>Pausing\<close>

lemma working_setData: "working (snd (setData d s)) = working s"
  by (simp add: setData_def Let_def split: sum.splits)

lemma working_addInStaticGrad: "working (snd (addInStaticGrad a b s)) = working s"
  by (simp add: addInStaticGrad_def Let_def split: option.splits)

lemma working_and_then:
  "(\<And>t. working (snd (f t)) = working t) \<Longrightarrow> working (snd (and_then r f)) = working (snd r)"
  by (simp add: and_then_def split: sum.splits)

lemma working_train:
  "working (snd (train_edge tps s)) = working s"
  "working (snd (train_grad tps s)) = working s"
  "working (snd (train_inside tps s)) = working s"
  "working (snd (train_outside tps s)) = working s"
  by (simp_all add: train_edge_def train_grad_def train_inside_def train_outside_def
      split: sum.splits)

lemma working_doTraining: "working (snd (doTraining p s)) = working s"
  by (simp add: doTraining_def Let_def working_and_then working_train working_addInStaticGrad
      split: sum.splits)

lemma doWork_idle: "\<not> working s \<Longrightarrow> doWork s = (Inr None, s)"
  by (simp add: doWork_def)

lemma doWork_idle_iter: "\<not> working s \<Longrightarrow> ((\<lambda>t. snd (doWork t)) ^^ n) s = s"
  by (induction n) (simp_all add: doWork_idle)

lemma setPoint_reset:
  "working (snd (setPoint sp s)) \<and>
   curPoint (snd (setPoint sp s)) = Some sp \<and>
   visited (snd (setPoint sp s)) =
     Some (replicate (nat (height s)) (replicate (nat (width s)) (Some False))) \<and>
   parents (snd (setPoint sp s)) = Some (replicate (nat (height s)) [])"
  by (simp add: setPoint_def setWorking_def Let_def map_replicate_const split: sum.splits)

text \<open>
  C8. While \<open>working\<close> is false, \<^verbatim>\<open>doWork\<close> returns \<^verbatim>\<open>undefined\<close> and leaves the whole
  engine state as it was (\<open>visited\<close>, \<open>cost\<close>, \<open>parents\<close> and the queue included), for
  any number of calls. Of the calls of the interface, only \<^verbatim>\<open>setWorking(true)\<close> and
  \<^verbatim>\<open>setPoint\<close> leave the pause: the former changes the flag and nothing else, the
  latter resets \<open>visited\<close> to all false and \<open>parents\<close> to empty rows.
\<close>

theorem paused_doWork_is_noop:
  assumes "\<not> working s"
  shows "doWork s = (Inr None, s) \<and>
         ((\<lambda>t. snd (doWork t)) ^^ n) s = s \<and>
         (working (apply_call c s) \<longrightarrow> c = SetWorking True \<or> (\<exists>sp. c = SetPoint sp)) \<and>
         setWorking True s = s\<lparr> working := True \<rparr> \<and>
         working (snd (setPoint sp s)) \<and>
         visited (snd (setPoint sp s)) =
           Some (replicate (nat (height s)) (replicate (nat (width s)) (Some False))) \<and>
         parents (snd (setPoint sp s)) = Some (replicate (nat (height s)) [])"
proof -
  have "working (apply_call c s) \<longrightarrow> c = SetWorking True \<or> (\<exists>sp. c = SetPoint sp)"
    using assms
    by (cases c) (simp_all add: setWorking_def setDimensions_def resetTraining_def
        working_setData working_doTraining doWork_idle)
  then show ?thesis
    using assms doWork_idle doWork_idle_iter [of s n] setPoint_reset [of sp s]
    by (simp add: setWorking_def)
qed

theorem paused_doWork_is_noop_witness:
  "\<not> working constructor \<and>
   doWork constructor = (Inr None, constructor) \<and>
   ((\<lambda>t. snd (doWork t)) ^^ 3) constructor = constructor \<and>
   working (apply_call (SetWorking True) constructor) \<and>
   working (snd (setPoint (0, 0) constructor))"
  using paused_doWork_is_noop [of constructor 3 "SetWorking True" "(0, 0)"]
  by (simp add: constructor_def setWorking_def)

subsection \<open>Training on too few points\<close>

text \<open>
  C6. When the walk along the parent pointers from \<open>p\<close> yields fewer than 8 points,
  \<^verbatim>\<open>doTraining\<close> returns normally and changes nothing but \<^verbatim>\<open>this.trainingPoints\<close>: the
  four training tables and the \<open>trained\<close> flag are as before the call.
\<close>

theorem doTraining_few_points:
  assumes "findTrainingPoints s p = Inr tps" and "length tps < 8"
  shows "doTraining p s = (Inr (), s\<lparr> trainingPoints := Some tps \<rparr>) \<and>
         edgeTraining (snd (doTraining p s)) = edgeTraining s \<and>
         gradTraining (snd (doTraining p s)) = gradTraining s \<and>
         insideTraining (snd (doTraining p s)) = insideTraining s \<and>
         outsideTraining (snd (doTraining p s)) = outsideTraining s \<and>
         trained (snd (doTraining p s)) = trained s"
  using assms by (simp add: doTraining_def)

theorem doTraining_few_points_witness:
  "findTrainingPoints (snd (setPoint (0, 0) (setDimensions 1 1 constructor))) (Some (0, 0))
     = Inr [(0, 0)] \<and>
   length [(0, 0) :: point] < 8 \<and>
   trained (snd (doTraining (Some (0, 0))
     (snd (setPoint (0, 0) (setDimensions 1 1 constructor))))) = False"
proof -
  let ?s = "snd (setPoint (0, 0) (setDimensions 1 1 constructor))"
  have par: "parents ?s = Some [[]]"
    using setPoint_reset [of "(0, 0)" "setDimensions 1 1 constructor"]
    by (simp add: setDimensions_def constructor_def)
  have tr: "trained ?s = False"
    by (simp add: setPoint_def setWorking_def setDimensions_def constructor_def Let_def
        split: sum.splits)
  have len: "trainingLength ?s = 32"
    by (simp add: setPoint_def setWorking_def setDimensions_def constructor_def Let_def
        split: sum.splits)
  have f: "findTrainingPoints ?s (Some (0, 0)) = Inr [(0, 0)]"
    by (simp add: findTrainingPoints_def par len eval_nat_numeral row_get_def arr_get_def)
  show ?thesis
    using doTraining_few_points [OF f] f tr by simp
qed

subsection \<open>Arrays and the field builders\<close>

lemma arr_get_arr_set:
  "arr_get (arr_set xs i v) j = (if 0 \<le> i \<and> j = i then v else arr_get xs j)"
  by (auto simp: arr_get_def arr_set_def nth_append nth_list_update)

lemma length_arr_set:
  "length (arr_set xs i v) = (if i < 0 then length xs else max (length xs) (nat i + 1))"
  by (auto simp: arr_set_def)

lemma arr_get_fold_set:
  "arr_get (fold (\<lambda>i r. arr_set r (int i) (f i)) [a..<b] r0) j =
     (if int a \<le> j \<and> j < int b then f (nat j) else arr_get r0 j)"
proof (induction b)
  case 0
  then show ?case by auto
next
  case (Suc b)
  show ?case
  proof (cases "a \<le> b")
    case True
    then show ?thesis using Suc by (auto simp: arr_get_arr_set)
  next
    case False
    then show ?thesis by auto
  qed
qed

lemma length_fold_set:
  "length (fold (\<lambda>i r. arr_set r (int i) (f i)) [a..<b] r0) =
     (if a < b then max (length r0) b else length r0)"
proof (induction b)
  case 0
  then show ?case by simp
next
  case (Suc b)
  show ?case
  proof (cases "a \<le> b")
    case True
    then show ?thesis using Suc by (auto simp: length_arr_set)
  next
    case False
    then show ?thesis by auto
  qed
qed

lemma arr_get_None_iff: "arr_get xs i = None \<longleftrightarrow> \<not> (0 \<le> i \<and> nat i < length xs \<and> xs ! nat i \<noteq> None)"
  by (auto simp: arr_get_def)

lemma computeGreyscale_rect: "rect (computeGreyscale d w h) (nat h) (nat w)"
  by (simp add: rect_def computeGreyscale_def)

lemma data_index_bound:
  fixes x y w h :: nat
  assumes "x < w" "y < h"
  shows "(y * w + x) * 4 + 2 < 4 * w * h"
proof -
  have "y * w + x < (y + 1) * w" using assms by simp
  also have "\<dots> \<le> h * w" using assms by (intro mult_right_mono) simp_all
  finally have "y * w + x + 1 \<le> h * w" by simp
  then have "(y * w + x + 1) * 4 \<le> h * w * 4" by simp
  then show ?thesis by (simp add: algebra_simps)
qed

lemma computeGreyscale_numeric:
  assumes "4 * nat w * nat h \<le> length d"
  shows "numeric (computeGreyscale d w h)"
proof -
  have "data_get d ((int y * w + int x) * 4 + k) \<noteq> None"
    if "x < nat w" "y < nat h" "k \<in> {0, 1, 2}" for x y k
  proof -
    have w: "w = int (nat w)" using that by simp
    have "(y * nat w + x) * 4 + 2 < 4 * nat w * nat h"
      using data_index_bound [OF that(1,2)] .
    then have "(y * nat w + x) * 4 + nat k < length d" "0 \<le> k"
      using assms that(3) by auto
    moreover have "(int y * w + int x) * 4 + k = int ((y * nat w + x) * 4 + nat k)"
      using that by (subst w) auto
    ultimately show ?thesis by (simp add: data_get_def del: of_nat_add of_nat_mult)
  qed
  note dg = this
  have "num_div (num_add (num_add (data_get d ((int y * w + int x) * 4))
            (data_get d ((int y * w + int x) * 4 + 1))) (data_get d ((int y * w + int x) * 4 + 2)))
          (Some (3 * 255)) \<noteq> None"
    if xw: "x < nat w" and yh: "y < nat h" for x y
  proof -
    obtain a b c where "data_get d ((int y * w + int x) * 4) = Some a"
      "data_get d ((int y * w + int x) * 4 + 1) = Some b"
      "data_get d ((int y * w + int x) * 4 + 2) = Some c"
      using dg [OF xw yh, of 0] dg [OF xw yh, of 1] dg [OF xw yh, of 2] by auto
    then show ?thesis by (simp add: num_div_def num_add_def)
  qed
  then show ?thesis
    by (auto simp: numeric_def computeGreyscale_def Let_def)
qed

lemma lift2_Some [simp]:
  "num_add (Some a) (Some b) = Some (a + b)"
  "num_sub (Some a) (Some b) = Some (a - b)"
  "num_mul (Some a) (Some b) = Some (a * b)"
  "num_max (Some a) (Some b) = Some (max a b)"
  "num_min (Some a) (Some b) = Some (min a b)"
  by (simp_all add: num_add_def num_sub_def num_mul_def num_max_def num_min_def)

lemma num_div_Some [simp]: "b \<noteq> 0 \<Longrightarrow> num_div (Some a) (Some b) = Some (a / b)"
  by (simp add: num_div_def)

lemma num_sqrt_Some [simp]: "0 \<le> a \<Longrightarrow> num_sqrt (Some a) = Some (sqrt a)"
  by (simp add: num_sqrt_def)

lemma num_lt_Some [simp]: "num_lt (Some a) (Some b) \<longleftrightarrow> a < b"
  by (simp add: num_lt_def)

lemma num_lt_None [simp]: "\<not> num_lt None b" "\<not> num_lt a None"
  by (simp_all add: num_lt_def split: option.splits)

lemma row_numericI:
  "(\<And>i. i < length r \<Longrightarrow> arr_get r (int i) \<noteq> None) \<Longrightarrow> \<forall>v \<in> set r. v \<noteq> None"
  by (auto simp: arr_get_def in_set_conv_nth)

lemma mat_get_nth:
  "y < length m \<Longrightarrow> mat_get m (int y) x = arr_get (m ! y) x"
  by (simp add: mat_get_def)

lemma mat_get_some:
  assumes "rect g h w" "numeric g" "0 \<le> y" "y < int h" "0 \<le> x" "x < int w"
  shows "\<exists>v. mat_get g y x = Some v"
proof -
  have y: "nat y < length g" using assms by (simp add: rect_def)
  then have r: "g ! nat y \<in> set g" by simp
  then have x: "nat x < length (g ! nat y)" using assms by (simp add: rect_def)
  then have "g ! nat y ! nat x \<in> set (g ! nat y)" by simp
  then have "g ! nat y ! nat x \<noteq> None"
    using r assms(2) unfolding numeric_def by blast
  then show ?thesis
    using assms x y by (simp add: mat_get_def arr_get_def)
qed

lemma arr_get_Nil [simp]: "arr_get [] i = None"
  by (simp add: arr_get_def)

lemma row_len_rect: "rect g h w \<Longrightarrow> 0 \<le> y \<Longrightarrow> y < int h \<Longrightarrow> row_len g y = int w"
  by (auto simp: row_len_def rect_def)

lemma dx_some:
  assumes "rect g h w" "numeric g" "0 \<le> y" "y < int h" "0 \<le> x" "x + 1 < int w"
  shows "\<exists>v. greyscale_dx g x y = Some v"
proof -
  obtain a b where "mat_get g y (x + 1) = Some a" "mat_get g y x = Some b"
    using mat_get_some [OF assms(1-4), of "x + 1"] mat_get_some [OF assms(1-4), of x] assms
    by auto
  then show ?thesis
    using assms by (simp add: greyscale_dx_def row_len_rect [OF assms(1,3,4)])
qed

lemma dy_some:
  assumes "rect g h w" "numeric g" "0 \<le> y" "y + 1 < int h" "0 \<le> x" "x < int w"
  shows "\<exists>v. greyscale_dy g x y = Some v"
proof -
  obtain a b where "mat_get g y x = Some a" "mat_get g (y + 1) x = Some b"
    using mat_get_some [OF assms(1,2), of y x] mat_get_some [OF assms(1,2), of "y + 1" x] assms
    by auto
  then show ?thesis
    using assms by (simp add: greyscale_dy_def rect_def)
qed

lemma computeGradX_rect:
  assumes "rect g h w"
  shows "rect (computeGradX g) h w"
proof -
  have "length (arr_set (fold (\<lambda>x r. arr_set r (int x) (f x)) [0..<nat (int w - 1)] [])
          (int w - 1) v) = w" for f :: "nat \<Rightarrow> num" and v
    by (auto simp: length_arr_set length_fold_set)
  then show ?thesis
    using assms by (auto simp: rect_def computeGradX_def Let_def row_len_def)
qed

lemma computeGradX_get:
  assumes "rect g h w" "y < h" "0 \<le> x" "x < int w"
  shows "mat_get (computeGradX g) (int y) x =
           (if x + 1 < int w then greyscale_dx g x (int y)
            else if 2 \<le> w then greyscale_dx g (int w - 2) (int y) else None)"
proof -
  have y: "y < length g" using assms by (simp add: rect_def)
  have rl: "row_len g (int y) = int w" using assms by (simp add: row_len_rect)
  show ?thesis
    using assms y
    by (auto simp: mat_get_def computeGradX_def Let_def rl arr_get_arr_set arr_get_fold_set
        nat_diff_distrib)
qed

lemma computeGradX_numeric:
  assumes "rect g h w" "numeric g" "2 \<le> w"
  shows "numeric (computeGradX g)"
  unfolding numeric_def
proof (intro ballI)
  fix r v assume r: "r \<in> set (computeGradX g)" and v: "v \<in> set r"
  have rc: "rect (computeGradX g) h w" using assms computeGradX_rect by blast
  then obtain y where y: "y < h" "r = computeGradX g ! y"
    using r by (auto simp: rect_def in_set_conv_nth)
  have lr: "length r = w" using rc r by (simp add: rect_def)
  then obtain x where x: "x < w" "v = r ! x" using v by (auto simp: in_set_conv_nth)
  have "v = mat_get (computeGradX g) (int y) (int x)"
    using x y rc lr by (simp add: mat_get_def arr_get_def rect_def)
  also have "\<dots> \<noteq> None"
    using computeGradX_get [OF assms(1) y(1), of "int x"] x assms
      dx_some [OF assms(1,2), of "int y" "int x"] dx_some [OF assms(1,2), of "int y" "int w - 2"] y
    by auto
  finally show "v \<noteq> None" .
qed

lemma rows_set_append [simp]: "rows_set m (int (length m)) r = m @ [r]"
  by (simp add: rows_set_def)

lemma rows_set_replace: "i < length m \<Longrightarrow> rows_set m (int i) r = m[i := r]"
  by (simp add: rows_set_def)

lemma row_get_nth: "i < length m \<Longrightarrow> row_get m (int i) = Inr (m ! i)"
  by (simp add: row_get_def)

lemma computeGradY_ok:
  assumes "rect g h w" "2 \<le> h"
  shows "\<exists>gy. computeGradY g = Inr gy \<and> rect gy h w \<and>
           (\<forall>y x. y < h \<longrightarrow> 0 \<le> x \<longrightarrow> x < int w \<longrightarrow>
              mat_get gy (int y) x = greyscale_dy g x (int (min y (h - 2))))"
proof -
  define top where
    "top = map (\<lambda>y. map (\<lambda>x. greyscale_dy g (int x) (int y)) [0..<nat (row_len g (int y))])
             [0..<length g - 1]"
  define bottom where
    "bottom = fold (\<lambda>i r. arr_set r (int i) (arr_get (top ! (h - 2)) (int i))) [0..<w] ([] :: num list)"
  have lg: "length g = h" using assms by (simp add: rect_def)
  have lt: "length top = h - 1" by (simp add: top_def lg)
  have rl: "row_len g (int y) = int w" if "y < h" for y
    using that assms by (simp add: row_len_rect)
  have top_row: "top ! y = map (\<lambda>x. greyscale_dy g (int x) (int y)) [0..<w]" if "y < h - 1" for y
    using that by (simp add: top_def lg rl)
  have g0: "row_get g 0 = Inr (g ! 0)" "length (g ! 0) = w"
    using assms by (auto simp: row_get_def rect_def)
  have i1: "int h - 1 = int (length top)" using assms lt by simp
  have i2: "int h - 2 = int (h - 2)" using assms by simp
  have st: "rows_set top (int h - 1) [] = top @ [[]]"
    unfolding i1 by simp
  have n2: "nat (int h - 2) = h - 2" "h - 2 < h - 1" "h - 2 < h" using assms by simp_all
  have prev: "row_get (top @ [[]]) (int h - 2) = Inr (top ! (h - 2))"
    using assms lt n2 by (simp add: row_get_def nth_append)
  have fin: "rows_set (top @ [[]]) (int h - 1) r = top @ [r]" for r
    unfolding i1 by (simp add: rows_set_def)
  have unf: "computeGradY g =
      (case row_get g 0 of
         Inl e \<Rightarrow> Inl e
       | Inr g0 \<Rightarrow>
           if length g0 = 0 then Inr (rows_set top (int (length g) - 1) [])
           else (case row_get (rows_set top (int (length g) - 1) []) (int (length g) - 2) of
                   Inl e \<Rightarrow> Inl e
                 | Inr prev \<Rightarrow>
                     Inr (rows_set (rows_set top (int (length g) - 1) []) (int (length g) - 1)
                            (fold (\<lambda>i r. arr_set r (int i) (arr_get prev (int i)))
                               [0..<length g0] []))))"
    unfolding computeGradY_def Let_def top_def ..
  have res: "computeGradY g = Inr (if w = 0 then top @ [[]] else top @ [bottom])"
    unfolding unf lg st g0 prev fin by (simp add: g0 bottom_def)
  have lb: "length bottom = w" by (simp add: bottom_def length_fold_set)
  have b0: "w = 0 \<Longrightarrow> bottom = []" by (simp add: bottom_def)
  have res': "computeGradY g = Inr (top @ [bottom])" using res b0 by simp
  have rc: "rect (top @ [bottom]) h w"
    using lt lb assms top_row by (auto simp: rect_def in_set_conv_nth)
  have "mat_get (top @ [bottom]) (int y) x = greyscale_dy g x (int (min y (h - 2)))"
    if "y < h" "0 \<le> x" "x < int w" for y x
  proof (cases "y < h - 1")
    case True
    have nx: "nat x < w" using that by linarith
    from True have m: "min y (h - 2) = y" by simp
    have ylen: "y < length (top @ [bottom])" using lt that by simp
    have "(top @ [bottom]) ! y = top ! y" using lt True by (simp add: nth_append)
    then have "mat_get (top @ [bottom]) (int y) x = arr_get (top ! y) x"
      using mat_get_nth [OF ylen, of x] by simp
    also have "\<dots> = greyscale_dy g x (int y)"
      using that nx by (simp add: top_row [OF True] arr_get_def)
    finally show ?thesis unfolding m .
  next
    case False
    then have y: "y = h - 1" using that by simp
    have m: "min y (h - 2) = h - 2" using y by simp
    have "h - 2 < h - 1" using assms by simp
    note tr = top_row [OF this]
    have nx: "nat x < w" using that by linarith
    have ylen: "y < length (top @ [bottom])" using lt that by simp
    have "(top @ [bottom]) ! y = bottom" using lt y by (simp add: nth_append)
    then have "mat_get (top @ [bottom]) (int y) x = arr_get bottom x"
      using mat_get_nth [OF ylen, of x] by simp
    also have "\<dots> = arr_get (top ! (h - 2)) x"
      using that by (simp add: bottom_def arr_get_fold_set)
    also have "\<dots> = greyscale_dy g x (int (h - 2))"
      using that nx by (simp add: tr arr_get_def)
    finally show ?thesis unfolding m .
  qed
  then show ?thesis using res' rc by blast
qed

lemma computeGradY_numeric:
  assumes "rect g h w" "2 \<le> h" "numeric g" "computeGradY g = Inr gy"
  shows "numeric gy"
  unfolding numeric_def
proof (intro ballI)
  fix r v assume r: "r \<in> set gy" and v: "v \<in> set r"
  from computeGradY_ok [OF assms(1,2)] assms(4)
  have rc: "rect gy h w"
    and get: "\<And>y x. y < h \<Longrightarrow> 0 \<le> x \<Longrightarrow> x < int w \<Longrightarrow>
       mat_get gy (int y) x = greyscale_dy g x (int (min y (h - 2)))"
    by auto
  obtain y where y: "y < h" "r = gy ! y"
    using r rc by (auto simp: rect_def in_set_conv_nth)
  have lr: "length r = w" using rc r by (simp add: rect_def)
  then obtain x where x: "x < w" "v = r ! x" using v by (auto simp: in_set_conv_nth)
  have "v = mat_get gy (int y) (int x)"
    using x y rc lr by (simp add: mat_get_def arr_get_def rect_def)
  also have "\<dots> = greyscale_dy g (int x) (int (min y (h - 2)))"
    using get y x by simp
  also have "\<dots> \<noteq> None"
    using dy_some [OF assms(1,3), of "int (min y (h - 2))" "int x"] x y assms(2) by auto
  finally show "v \<noteq> None" .
qed

lemma list_all_arr_set:
  "P None \<Longrightarrow> P v \<Longrightarrow> list_all P xs \<Longrightarrow> list_all P (arr_set xs i v)"
  by (auto simp: arr_set_def list_all_iff dest: set_update_subset_insert [THEN subsetD])

lemma list_all_fold_set:
  "P None \<Longrightarrow> (\<And>i. i \<in> set js \<Longrightarrow> P (f i)) \<Longrightarrow> list_all P r0 \<Longrightarrow>
   list_all P (fold (\<lambda>i r. arr_set r (int i) (f i)) js r0)"
  by (induction js arbitrary: r0) (simp_all add: list_all_arr_set)

lemma arr_get_P: "P None \<Longrightarrow> list_all P xs \<Longrightarrow> P (arr_get xs i)"
  by (simp add: arr_get_def list_all_length)

lemma mat_get_P: "P None \<Longrightarrow> list_all (list_all P) m \<Longrightarrow> P (mat_get m y x)"
  by (simp add: mat_get_def arr_get_P list_all_length)

lemma list_all_rows_set: "list_all Q m \<Longrightarrow> Q r \<Longrightarrow> list_all Q (rows_set m i r)"
  by (auto simp: rows_set_def list_all_iff dest: set_update_subset_insert [THEN subsetD])

lemma fold_max_some:
  "fold (\<lambda>x m. num_max (f x) m) xs m0 = Some m \<Longrightarrow>
     (\<exists>a. m0 = Some a \<and> a \<le> m) \<and> (\<forall>x \<in> set xs. \<exists>c. f x = Some c \<and> c \<le> m)"
proof (induction xs arbitrary: m0)
  case Nil
  then show ?case by simp
next
  case (Cons x xs)
  from Cons.prems have "fold (\<lambda>x m. num_max (f x) m) xs (num_max (f x) m0) = Some m" by simp
  from Cons.IH [OF this]
  obtain a where a: "num_max (f x) m0 = Some a" "a \<le> m"
    and rest: "\<forall>x \<in> set xs. \<exists>c. f x = Some c \<and> c \<le> m" by blast
  from a(1) obtain c b where "f x = Some c" "m0 = Some b" "a = max c b"
    by (cases "f x"; cases m0) (auto simp: num_max_def)
  with a rest show ?case by auto
qed

lemma fold_fold_max_some:
  "fold (\<lambda>y m. fold (\<lambda>x m. num_max (F x y) m) (XS y) m) ys m0 = Some m \<Longrightarrow>
     (\<exists>a. m0 = Some a \<and> a \<le> m) \<and>
     (\<forall>y \<in> set ys. \<forall>x \<in> set (XS y). \<exists>c. F x y = Some c \<and> c \<le> m)"
proof (induction ys arbitrary: m0)
  case Nil
  then show ?case by simp
next
  case (Cons y ys)
  from Cons.prems
  have "fold (\<lambda>y m. fold (\<lambda>x m. num_max (F x y) m) (XS y) m) ys
          (fold (\<lambda>x m. num_max (F x y) m) (XS y) m0) = Some m" by simp
  from Cons.IH [OF this]
  obtain a where a: "fold (\<lambda>x m. num_max (F x y) m) (XS y) m0 = Some a" "a \<le> m"
    and rest: "\<forall>y \<in> set ys. \<forall>x \<in> set (XS y). \<exists>c. F x y = Some c \<and> c \<le> m" by blast
  from fold_max_some [OF a(1)]
  obtain b where "m0 = Some b" "b \<le> a" "\<forall>x \<in> set (XS y). \<exists>c. F x y = Some c \<and> c \<le> a"
    by blast
  with a rest show ?case by fastforce
qed

lemma gradMagnitude_nonneg: "gradMagnitude g x y = Some c \<Longrightarrow> 0 \<le> c"
  by (auto simp: gradMagnitude_def Let_def num_sqrt_def split: option.splits if_splits)

lemma gradient_max_bounds:
  assumes "gradient_max g = Some m"
  shows "0 \<le> m"
    and "y < length g - 1 \<Longrightarrow> x < nat (row_len g (int y) - 1) \<Longrightarrow>
         \<exists>c. gradMagnitude g (int x) (int y) = Some c \<and> 0 \<le> c \<and> c \<le> m"
proof -
  note b = fold_fold_max_some [OF assms [unfolded gradient_max_def]]
  from b show "0 \<le> m" by simp
  assume "y < length g - 1" "x < nat (row_len g (int y) - 1)"
  with b obtain c where "gradMagnitude g (int x) (int y) = Some c" "c \<le> m" by fastforce
  then show "\<exists>c. gradMagnitude g (int x) (int y) = Some c \<and> 0 \<le> c \<and> c \<le> m"
    using gradMagnitude_nonneg by blast
qed

lemma below_flip: "below mx v \<Longrightarrow> in_unit (num_sub (Some 1) (num_div v mx))"
proof (cases v; cases mx)
  fix c m assume "below mx v" "v = Some c" "mx = Some m"
  then have "0 \<le> c" "c \<le> m" by (auto simp: below_def)
  then show ?thesis
    using \<open>v = Some c\<close> \<open>mx = Some m\<close>
    by (cases "m = 0") (auto simp: in_unit_def num_div_def num_sub_def divide_le_eq)
qed (auto simp: in_unit_def num_div_def num_sub_def)

lemma gradient_row_below:
  assumes "y < length g - 1"
  shows "list_all (below (gradient_max g)) (gradient_row g y)"
proof -
  have n: "below (gradient_max g) None" by (simp add: below_def)
  have m: "below (gradient_max g) (gradMagnitude g (int x) (int y))"
    if "x \<in> set [0..<nat (row_len g (int y) - 1)]" for x
  proof (cases "gradient_max g")
    case None
    then show ?thesis using gradMagnitude_nonneg by (auto simp: below_def)
  next
    case (Some m)
    from gradient_max_bounds(2) [OF Some assms, of x] that
    show ?thesis by (auto simp: below_def Some)
  qed
  have "list_all (below (gradient_max g))
          (fold (\<lambda>x r. arr_set r (int x) (gradMagnitude g (int x) (int y)))
             [0..<nat (row_len g (int y) - 1)] [])"
    by (rule list_all_fold_set [where P = "below (gradient_max g)"]) (simp_all add: n m)
  then show ?thesis
    unfolding gradient_row_def Let_def
    by (intro list_all_arr_set [where P = "below (gradient_max g)"]
          arr_get_P [where P = "below (gradient_max g)"] n)
qed

lemma computeGradient_range:
  assumes "computeGradient g = Inr gr"
  shows "list_all (list_all in_unit) gr"
proof -
  let ?B = "below (gradient_max g)"
  have n: "?B None" by (simp add: below_def)
  define top where "top = rows_set (map (gradient_row g) [0..<length g - 1]) (int (length g) - 1) []"
  have t: "list_all (list_all ?B) top"
    unfolding top_def
    by (intro list_all_rows_set) (auto simp: list_all_iff gradient_row_below [unfolded list_all_iff])
  obtain r0 where r0: "row_get top 0 = Inr r0"
    using assms unfolding computeGradient_def Let_def top_def [symmetric]
    by (auto split: sum.splits)
  define bottom where "bottom = fold (\<lambda>i r. arr_set r (int i) (mat_get top (int (length g) - 2) (int i)))
                            [0..<length r0] ([] :: num list)"
  have b: "list_all ?B bottom"
    unfolding bottom_def
    by (rule list_all_fold_set [where P = ?B]) (simp_all add: n mat_get_P [where P = ?B, OF n t])
  have gr: "gr = map (map (\<lambda>v. num_sub (Some 1) (num_div v (gradient_max g))))
                   (rows_set top (int (length g) - 1) bottom)"
    using assms r0 unfolding computeGradient_def Let_def top_def [symmetric] bottom_def
    by simp
  have "list_all (list_all ?B) (rows_set top (int (length g) - 1) bottom)"
    by (intro list_all_rows_set t b)
  then show ?thesis
    unfolding gr by (auto simp: list_all_iff below_flip)
qed

lemma laplace_pad_bit: "list_all bit01 (laplace_pad h)"
  unfolding laplace_pad_def
  by (rule list_all_fold_set [where P = bit01]) (simp_all add: bit01_def)

lemma laplace_row_bit: "list_all bit01 (laplace_row g y)"
  unfolding laplace_row_def Let_def
  by (intro list_all_arr_set [where P = bit01] list_all_fold_set [where P = bit01])
     (simp_all add: bit01_def)

lemma list_all_fold_rows:
  "list_all Q m \<Longrightarrow> (\<And>y. y \<in> set ys \<Longrightarrow> Q (f y)) \<Longrightarrow>
   list_all Q (fold (\<lambda>y m. rows_set m (int y) (f y)) ys m)"
  by (induction ys arbitrary: m) (simp_all add: list_all_rows_set)

lemma computeLaplace_bit: "list_all (list_all bit01) (computeLaplace g)"
  unfolding computeLaplace_def Let_def
  by (intro list_all_rows_set list_all_fold_rows) (simp_all add: laplace_pad_bit laplace_row_bit)

lemma length_fold_rows:
  "length m = a \<Longrightarrow> length (fold (\<lambda>y m. rows_set m (int y) (f y)) [a..<b] m) = max a b"
proof (induction b)
  case 0
  then show ?case by simp
next
  case (Suc b)
  show ?case
  proof (cases "a \<le> b")
    case True
    then show ?thesis using Suc by (simp add: rows_set_def max_def)
  next
    case False
    then show ?thesis using Suc by (simp add: max_def)
  qed
qed

lemma length_rows_set: "length (rows_set m i r) = (if 0 \<le> i \<and> length m \<le> nat i then Suc (length m) else length m)"
  by (auto simp: rows_set_def)

lemma computeLaplace_length:
  assumes "2 \<le> length g"
  shows "length (computeLaplace g) = length g"
proof -
  let ?h = "length g"
  define mid where "mid = fold (\<lambda>y m. rows_set m (int y) (laplace_row g y)) [2..<?h - 2]
                             [laplace_pad ?h, laplace_pad ?h]"
  have lm: "length mid = max 2 (?h - 2)"
    unfolding mid_def by (rule length_fold_rows) simp
  have "length (rows_set (rows_set mid (int ?h - 2) (laplace_pad ?h)) (int ?h - 1) (laplace_pad ?h)) = ?h"
    using assms lm by (auto simp: length_rows_set max_def)
  then show ?thesis
    unfolding computeLaplace_def Let_def mid_def .
qed

lemma length_gradient_row:
  assumes "rect g h w" "y < h"
  shows "length (gradient_row g y) = w"
  using assms
  by (auto simp: gradient_row_def Let_def length_arr_set length_fold_set row_len_rect)

lemma computeGradient_ok:
  assumes "rect g h w" "2 \<le> h"
  shows "\<exists>gr. computeGradient g = Inr gr \<and> rect gr h w"
proof -
  have lg: "length g = h" using assms by (simp add: rect_def)
  define top where "top = map (gradient_row g) [0..<length g - 1]"
  have lt: "length top = h - 1" by (simp add: top_def lg)
  have i1: "int (length g) - 1 = int (length top)" using assms lt lg by simp
  have st: "rows_set top (int (length g) - 1) [] = top @ [[]]"
    unfolding i1 by simp
  have fin: "rows_set (top @ [[]]) (int (length g) - 1) r = top @ [r]" for r
    unfolding i1 by (simp add: rows_set_def)
  have t0: "(top @ [[]]) ! 0 = gradient_row g 0" using assms lt by (simp add: nth_append top_def lg)
  have r0: "row_get (top @ [[]]) 0 = Inr (gradient_row g 0)"
    using row_get_nth [of 0 "top @ [[]]"] t0 by simp
  define bottom where
    "bottom = fold (\<lambda>i r. arr_set r (int i) (mat_get (top @ [[]]) (int (length g) - 2) (int i)))
                [0..<length (gradient_row g 0)] ([] :: num list)"
  have res: "computeGradient g =
      Inr (map (map (\<lambda>v. num_sub (Some 1) (num_div v (gradient_max g)))) (top @ [bottom]))"
    unfolding computeGradient_def Let_def top_def [symmetric] st
    by (simp add: r0 fin bottom_def)
  have lb: "length bottom = w"
    using assms by (simp add: bottom_def length_fold_set length_gradient_row)
  have "rect (top @ [bottom]) h w"
    using lt lb assms by (auto simp: rect_def top_def lg length_gradient_row)
  then have "rect (map (map (\<lambda>v. num_sub (Some 1) (num_div v (gradient_max g)))) (top @ [bottom])) h w"
    by (auto simp: rect_def)
  then show ?thesis using res by blast
qed

lemma emap_ok:
  "(\<And>x. x \<in> set xs \<Longrightarrow> \<exists>v. f x = Inr v) \<Longrightarrow> \<exists>vs. emap f xs = Inr vs \<and> length vs = length xs"
proof (induction xs)
  case Nil
  then show ?case by simp
next
  case (Cons x xs)
  then obtain v vs where "f x = Inr v" "emap f xs = Inr vs" "length vs = length xs"
    by (metis list.set_intros)
  then show ?case by simp
qed

lemma emap_length: "emap f xs = Inr vs \<Longrightarrow> length vs = length xs"
  by (induction xs arbitrary: vs) (auto split: sum.splits)

lemma emap_nth: "emap f xs = Inr vs \<Longrightarrow> i < length xs \<Longrightarrow> f (xs ! i) = Inr (vs ! i)"
proof (induction xs arbitrary: vs i)
  case Nil
  then show ?case by simp
next
  case (Cons x xs)
  then show ?case by (cases i) (auto split: sum.splits)
qed

lemma gradUnitVector_ok:
  assumes "rect gx h w" "numeric gx" "rect gy h w" "numeric gy"
    and "0 \<le> y" "y < int h" "0 \<le> x" "x < int w"
  shows "\<exists>a b. gradUnitVector gx gy x y = Inr (Some a, Some b)"
proof -
  have ny: "nat y < h" using assms by linarith
  have rx: "row_get gx y = Inr (gx ! nat y)" "row_get gy y = Inr (gy ! nat y)"
    using assms ny by (simp_all add: row_get_def rect_def)
  obtain ox where ox: "arr_get (gx ! nat y) x = Some ox"
    using mat_get_some [OF assms(1,2,5-8)] assms ny by (auto simp: mat_get_def rect_def)
  obtain oy where oy: "arr_get (gy ! nat y) x = Some oy"
    using mat_get_some [OF assms(3,4,5-8)] assms ny by (auto simp: mat_get_def rect_def)
  have "(0 :: real) < max (sqrt (ox * ox + oy * oy)) (1 / 10 ^ 100)"
    by (simp add: less_max_iff_disj)
  then have pos: "max (sqrt (ox * ox + oy * oy)) (1 / 10 ^ 100) \<noteq> 0"
    by linarith
  have nn: "0 \<le> ox * ox + oy * oy" by simp
  show ?thesis
    unfolding gradUnitVector_def rx by (simp add: ox oy Let_def nn pos del: max.bounded_iff)
qed

lemma side_sample_ok:
  assumes "length g = h" "0 < h"
  shows "\<exists>v. side_sample g (side_index (Some r) (int h - 1)) ix = Inr v"
proof -
  have "0 \<le> max (min (js_round r) (int h - 1)) 0" by simp
  moreover have "nat (max (min (js_round r) (int h - 1)) 0) < h" using assms by auto
  ultimately show ?thesis
    using assms by (simp add: side_sample_def side_index_def row_get_def)
qed

lemma sides_at_ok:
  assumes "rect gx h w" "numeric gx" "rect gy h w" "numeric gy" "length g = h"
    and "y < h" "x < w"
  shows "\<exists>v. sides_at off gx gy g y x = Inr v"
proof -
  obtain a b where uv: "gradUnitVector gx gy (int x) (int y) = Inr (Some a, Some b)"
    using gradUnitVector_ok [OF assms(1-4), of "int y" "int x"] assms by auto
  have h: "0 < h" using assms by simp
  have lx: "int (length gx) - 1 = int h - 1" using assms by (simp add: rect_def)
  obtain i where i: "side_sample g (side_index (Some (real y - off * a)) (int h - 1))
        (side_index (Some (real x + off * b)) (row_len gx (int y) - 1)) = Inr i"
    using side_sample_ok [OF assms(5) h] by blast
  obtain ou where ou: "side_sample g (side_index (Some (real y + off * a)) (int h - 1))
        (side_index (Some (real x - off * b)) (row_len gx (int y) - 1)) = Inr ou"
    using side_sample_ok [OF assms(5) h] by blast
  show ?thesis
    unfolding sides_at_def uv by (simp add: Let_def lx i ou)
qed

lemma computeSides_ok:
  assumes "rect gx h w" "numeric gx" "rect gy h w" "numeric gy" "length g = h"
  shows "\<exists>sd. computeSides off gx gy g = Inr sd \<and>
           rect (sides_inside sd) h w \<and> rect (sides_outside sd) h w"
proof -
  have lg: "length gx = h" using assms by (simp add: rect_def)
  have rl: "nat (row_len gx (int y)) = w" if "y < h" for y
    using that assms by (simp add: row_len_rect)
  let ?row = "\<lambda>y. emap (sides_at off gx gy g y) [0..<nat (row_len gx (int y))]"
  have row: "\<exists>vs. ?row y = Inr vs \<and> length vs = w" if "y < h" for y
    using emap_ok [of "[0..<nat (row_len gx (int y))]" "sides_at off gx gy g y"]
      sides_at_ok [OF assms that] rl [OF that] by auto
  have "\<exists>vs. emap ?row [0..<length gx] = Inr vs \<and> length vs = length [0..<length gx]"
  proof (rule emap_ok)
    fix y assume "y \<in> set [0..<length gx]"
    then have "y < h" using lg by simp
    from row [OF this] show "\<exists>v. ?row y = Inr v" by blast
  qed
  then obtain rows where rows: "emap ?row [0..<length gx] = Inr rows" "length rows = h"
    using lg by auto
  have "length (rows ! y) = w" if "y < h" for y
    using emap_nth [OF rows(1), of y] row [OF that] that lg by auto
  then have "rect (map (map fst) rows) h w" "rect (map (map snd) rows) h w"
    using rows(2) by (auto simp: rect_def in_set_conv_nth)
  then show ?thesis
    unfolding computeSides_def rows(1) by simp
qed

lemma setData_ok:
  assumes "2 \<le> w" "2 \<le> h" "width s = int w" "height s = int h" "4 * w * h \<le> length d"
  shows "\<exists>s'. setData d s = (Inr (), s') \<and> fields_ok s' h w \<and>
           trained s' = trained s \<and> working s' = working s"
proof -
  let ?g = "computeGreyscale d (int w) (int h)"
  have rg: "rect ?g h w" using computeGreyscale_rect [of d "int w" "int h"] by simp
  have ng: "numeric ?g" using computeGreyscale_numeric [of "int w" "int h" d] assms by simp
  have lg: "length ?g = h" using rg by (simp add: rect_def)
  obtain gr where gr: "computeGradient ?g = Inr gr" "rect gr h w"
    using computeGradient_ok [OF rg assms(2)] by blast
  obtain gy where gy: "computeGradY ?g = Inr gy" "rect gy h w"
    using computeGradY_ok [OF rg assms(2)] by blast
  have ngy: "numeric gy" using computeGradY_numeric [OF rg assms(2) ng gy(1)] .
  have rgx: "rect (computeGradX ?g) h w" using computeGradX_rect [OF rg] .
  have ngx: "numeric (computeGradX ?g)" using computeGradX_numeric [OF rg ng assms(1)] .
  obtain sd where sd: "computeSides (edgeWidth s) (computeGradX ?g) gy ?g = Inr sd"
      "rect (sides_inside sd) h w" "rect (sides_outside sd) h w"
    using computeSides_ok [OF rgx ngx gy(2) ngy lg] by blast
  have ll: "length (computeLaplace ?g) = h"
    using computeLaplace_length [of ?g] lg assms by simp
  show ?thesis
    using assms rg gr gy rgx sd ll computeLaplace_bit [of ?g] computeGradient_range [OF gr(1)]
    by (simp add: setData_def Let_def fields_ok_def table_ok_def)
qed

text \<open>
  C9. Amended: while either dimension is still \<open>-1\<close>, \<^verbatim>\<open>setData\<close> raises the error
  ``Dimensions have not been set'' and leaves the engine as it was, no field built;
  once the dimensions are set to at least 2 by 2 and the buffer holds at least
  \<open>4 * width * height\<close> samples, \<^verbatim>\<open>setData\<close> returns without raising.
\<close>

theorem setData_dimensions:
  "(width s = - 1 \<or> height s = - 1 \<longrightarrow> setData d s = (Inl DimensionsNotSet, s)) \<and>
   (2 \<le> width s \<and> 2 \<le> height s \<and> 4 * nat (width s) * nat (height s) \<le> length d \<longrightarrow>
      fst (setData d s) = Inr ())"
proof (intro conjI impI)
  assume "width s = - 1 \<or> height s = - 1"
  then show "setData d s = (Inl DimensionsNotSet, s)" by (simp add: setData_def)
next
  assume a: "2 \<le> width s \<and> 2 \<le> height s \<and> 4 * nat (width s) * nat (height s) \<le> length d"
  then have "2 \<le> nat (width s)" "2 \<le> nat (height s)"
    "width s = int (nat (width s))" "height s = int (nat (height s))" by linarith+
  from setData_ok [OF this, of d] a
  obtain s' where "setData d s = (Inr (), s')" by blast
  then show "fst (setData d s) = Inr ()" by simp
qed

theorem setData_dimensions_witness:
  "width constructor = - 1 \<and>
   setData [0, 0, 0, 255] constructor = (Inl DimensionsNotSet, constructor) \<and>
   2 \<le> width (setDimensions 2 2 constructor) \<and>
   2 \<le> height (setDimensions 2 2 constructor) \<and>
   4 * nat (width (setDimensions 2 2 constructor)) * nat (height (setDimensions 2 2 constructor))
     \<le> length (replicate 16 (0 :: nat)) \<and>
   fst (setData (replicate 16 0) (setDimensions 2 2 constructor)) = Inr ()"
  using setData_dimensions [of constructor "[0, 0, 0, 255]"]
    setData_dimensions [of "setDimensions 2 2 constructor" "replicate 16 0"]
  by (simp add: constructor_def setDimensions_def)

text \<open>
  The claim as stated fails for a 1 by 1 image: the dimensions are set, and
  \<^verbatim>\<open>computeGradY\<close> reads row \<open>-1\<close> of the matrix it is building.
\<close>

theorem setData_one_pixel_raises:
  "width (setDimensions 1 1 constructor) \<noteq> - 1 \<and>
   height (setDimensions 1 1 constructor) \<noteq> - 1 \<and>
   fst (setData [0, 0, 0, 255] (setDimensions 1 1 constructor)) = Inl TypeError"
  by (simp add: setData_def setDimensions_def constructor_def computeGreyscale_def
      computeGradient_def computeGradY_def rows_set_def row_get_def Let_def gradient_max_def
      gradient_row_def row_len_def arr_set_def arr_get_def num_div_def num_sub_def)

subsection \<open>The Laplace and gradient fields\<close>

lemma nth_fold_rows:
  "length m = a \<Longrightarrow> i < max a b \<Longrightarrow>
   fold (\<lambda>y m. rows_set m (int y) (f y)) [a..<b] m ! i = (if i < a then m ! i else f i)"
proof (induction b)
  case 0
  then show ?case by simp
next
  case (Suc b)
  show ?case
  proof (cases "a \<le> b")
    case True
    define F where "F = fold (\<lambda>y m. rows_set m (int y) (f y)) [a..<b] m"
    have l: "length F = b"
      unfolding F_def using length_fold_rows [OF Suc.prems(1), of f b] True by (simp add: max_def)
    have step: "fold (\<lambda>y m. rows_set m (int y) (f y)) [a..<Suc b] m = F @ [f b]"
      using True l rows_set_append [of F "f b"] by (simp add: F_def)
    show ?thesis
    proof (cases "i = b")
      case True
      then show ?thesis unfolding step using \<open>a \<le> b\<close> l by (simp add: nth_append)
    next
      case False
      then have "i < max a b" using Suc.prems True by (simp add: max_def)
      from Suc.IH [OF Suc.prems(1) this] show ?thesis
        unfolding step using \<open>a \<le> b\<close> l False Suc.prems
        by (simp add: nth_append max_def F_def)
    qed
  next
    case False
    then show ?thesis using Suc.prems by (auto simp: max_def split: if_splits)
  qed
qed

lemma nth_rows_set:
  "0 \<le> i \<Longrightarrow> nat i \<le> length m \<Longrightarrow> j < length (rows_set m i r) \<Longrightarrow>
   rows_set m i r ! j = (if j = nat i then r else m ! j)"
  by (auto simp: rows_set_def nth_append nth_list_update)

lemma computeLaplace_nth:
  assumes "2 \<le> length g" "y < length g"
  shows "computeLaplace g ! y =
           (if 2 \<le> y \<and> y + 2 < length g then laplace_row g y else laplace_pad (length g))"
proof -
  let ?h = "length g"
  define mid where "mid = fold (\<lambda>y m. rows_set m (int y) (laplace_row g y)) [2..<?h - 2]
                             [laplace_pad ?h, laplace_pad ?h]"
  have lm: "length mid = max 2 (?h - 2)"
    unfolding mid_def by (rule length_fold_rows) simp
  have nm: "mid ! i = (if i < 2 then laplace_pad ?h else laplace_row g i)" if "i < max 2 (?h - 2)" for i
    unfolding mid_def using nth_fold_rows [of "[laplace_pad ?h, laplace_pad ?h]" 2 i "?h - 2" "laplace_row g"] that
    by (auto simp: nth_Cons')
  let ?m1 = "rows_set mid (int ?h - 2) (laplace_pad ?h)"
  let ?m2 = "rows_set ?m1 (int ?h - 1) (laplace_pad ?h)"
  have l1: "length ?m1 = max 2 (?h - 1)"
    using assms lm by (auto simp: length_rows_set max_def)
  have l2: "length ?m2 = ?h"
    using assms l1 by (auto simp: length_rows_set max_def)
  have n2: "nat (int ?h - 2) = ?h - 2" "nat (int ?h - 1) = ?h - 1" "0 \<le> int ?h - 2" "0 \<le> int ?h - 1"
    using assms by linarith+
  have "?m2 ! y = (if y = ?h - 1 then laplace_pad ?h else ?m1 ! y)"
    using nth_rows_set [of "int ?h - 1" ?m1 y "laplace_pad ?h"] l1 l2 assms n2 by (simp add: max_def)
  moreover have "?m1 ! y = (if y = ?h - 2 then laplace_pad ?h else mid ! y)" if "y < ?h - 1"
    using nth_rows_set [of "int ?h - 2" mid y "laplace_pad ?h"] lm l1 that n2 by (simp add: max_def)
  moreover have "mid ! y = (if y < 2 then laplace_pad ?h else laplace_row g y)" if "y < ?h - 2"
    using nm [of y] that by (simp add: max_def)
  ultimately have "?m2 ! y = (if 2 \<le> y \<and> y + 2 < ?h then laplace_row g y else laplace_pad ?h)"
    using assms by auto
  then show ?thesis
    unfolding computeLaplace_def Let_def mid_def .
qed

lemma arr_get_laplace_pad:
  "arr_get (laplace_pad h) x = (if 1 \<le> x \<and> x < int h then Some 1 else None)"
  by (simp add: laplace_pad_def arr_get_fold_set)

lemma arr_get_laplace_row:
  assumes "rect g h w" "y < h" "0 \<le> x" "x < int w"
  shows "arr_get (laplace_row g y) x =
           (if 2 \<le> x \<and> x + 2 < int w
            then (if num_gt (greyscale_laplace g x (int y)) (Some 0.33) then Some 0 else Some 1)
            else Some 1)"
proof -
  have rl: "row_len g (int y) = int w" using assms by (simp add: row_len_rect)
  show ?thesis
    unfolding laplace_row_def Let_def rl
    using assms by (auto simp: arr_get_arr_set arr_get_fold_set)
qed

lemma greyscale_img_dot:
  "computeGreyscale img_dot 5 5 =
     [[Some 1, Some 1, Some 1, Some 1, Some 1],
      [Some 1, Some 1, Some 1, Some 1, Some 1],
      [Some 1, Some 1, Some 0, Some 1, Some 1],
      [Some 1, Some 1, Some 1, Some 1, Some 1],
      [Some 1, Some 1, Some 1, Some 1, Some 1]]"
  by (simp add: img_dot_def computeGreyscale_def Let_def data_get_def upt_rec [of _ "numeral _"])

lemma stencil_img_dot: "greyscale_laplace (computeGreyscale img_dot 5 5) 2 2 = Some 16"
  unfolding greyscale_img_dot
  by (simp add: greyscale_laplace_def mat_get_def arr_get_def)

text \<open>
  C2. Amended: for a \<open>w\<close> by \<open>h\<close> greyscale field and a pixel \<open>(x, y)\<close> of a row
  \<open>2 \<le> y < h - 2\<close>, the Laplace value is 0 when the 13-tap stencil at \<open>(x, y)\<close> exceeds
  0.33 and 1 when it does not, for \<open>2 \<le> x < w - 2\<close>, and is 1 in the two leftmost and
  the two rightmost columns. All these entries are 0 or 1. (The two top and the two
  bottom rows are not part of the statement.)
\<close>

theorem computeLaplace_field:
  assumes "rect g h w" and "2 \<le> y" and "y + 2 < h" and "x < w"
  shows "mat_get (computeLaplace g) (int y) (int x) =
           (if 2 \<le> x \<and> x + 2 < w
            then (if num_gt (greyscale_laplace g (int x) (int y)) (Some 0.33)
                  then Some 0 else Some 1)
            else Some 1) \<and>
         (mat_get (computeLaplace g) (int y) (int x) = Some 0 \<or>
          mat_get (computeLaplace g) (int y) (int x) = Some 1)"
proof -
  have lg: "length g = h" using assms by (simp add: rect_def)
  have yh: "y < h" using assms(3) by simp
  have "computeLaplace g ! y = laplace_row g y"
    using computeLaplace_nth [of g y] lg assms by simp
  moreover have "y < length (computeLaplace g)"
    using computeLaplace_length [of g] lg assms by simp
  ultimately have "mat_get (computeLaplace g) (int y) (int x) = arr_get (laplace_row g y) (int x)"
    by (simp add: mat_get_nth)
  then have "mat_get (computeLaplace g) (int y) (int x) =
           (if 2 \<le> x \<and> x + 2 < w
            then (if num_gt (greyscale_laplace g (int x) (int y)) (Some 0.33)
                  then Some 0 else Some 1)
            else Some 1)"
    using arr_get_laplace_row [OF assms(1) yh, of "int x"] assms(2,3,4) by simp
  then show ?thesis by simp
qed

theorem computeLaplace_field_witness:
  "rect (computeGreyscale img_dot 5 5) 5 5 \<and>
   mat_get (computeLaplace (computeGreyscale img_dot 5 5)) 2 2 = Some 0 \<and>
   mat_get (computeLaplace (computeGreyscale img_dot 5 5)) 2 0 = Some 1 \<and>
   mat_get (computeLaplace (computeGreyscale img_dot 5 5)) 2 4 = Some 1"
proof -
  have r: "rect (computeGreyscale img_dot 5 5) 5 5"
    using computeGreyscale_rect [of img_dot 5 5] by simp
  show ?thesis
    using r computeLaplace_field [OF r, of 2 2] computeLaplace_field [OF r, of 2 0]
      computeLaplace_field [OF r, of 2 4]
    by (simp add: stencil_img_dot num_gt_def)
qed

text \<open>
  The claim as stated fails on a white 5 by 5 image with a black centre: the stencil
  at the centre is 16, above the threshold, and the field is 0 there, not 1.
\<close>

theorem computeLaplace_polarity:
  "num_gt (greyscale_laplace (computeGreyscale img_dot 5 5) 2 2) (Some 0.33) \<and>
   mat_get (computeLaplace (computeGreyscale img_dot 5 5)) 2 2 = Some 0"
proof -
  have r: "rect (computeGreyscale img_dot 5 5) 5 5"
    using computeGreyscale_rect [of img_dot 5 5] by simp
  then have l: "length (computeGreyscale img_dot 5 5) = 5" by (simp add: rect_def)
  have "computeLaplace (computeGreyscale img_dot 5 5) ! 2
      = laplace_row (computeGreyscale img_dot 5 5) 2"
    using computeLaplace_nth [of "computeGreyscale img_dot 5 5" 2] l by simp
  moreover have "length (computeLaplace (computeGreyscale img_dot 5 5)) = 5"
    using computeLaplace_length [of "computeGreyscale img_dot 5 5"] l by simp
  ultimately show ?thesis
    using mat_get_nth [of 2 "computeLaplace (computeGreyscale img_dot 5 5)" 2]
      arr_get_laplace_row [OF r, of 2 2]
    by (simp add: stencil_img_dot num_gt_def)
qed

lemma greyscale_img_step:
  "computeGreyscale img_step 4 3 =
     [[Some 0, Some 0, Some 1, Some 1],
      [Some 0, Some 0, Some 1, Some 1],
      [Some 0, Some 0, Some 1, Some 1]]"
  by (simp add: img_step_def computeGreyscale_def Let_def data_get_def upt_rec [of _ "numeral _"])

text \<open>
  C5. The claim: the last column of the gradient field replicates the penultimate
  column. The code: \<^verbatim>\<open>gradient[y][greyscale[y].length - 1] = gradient[y][greyscale.length - 2]\<close>
  copies the column numbered by the height, where the sibling \<^verbatim>\<open>computeGradX\<close> takes
  \<^verbatim>\<open>greyscale[y].length - 2\<close>. On a 4 by 3 image with a vertical step between columns 1
  and 2 the last column (3) holds 0, the value of column \<open>3 - 2 = 1\<close>, where the
  penultimate column (2) holds 1.
\<close>

theorem computeGradient_last_column:
  "computeGradient (computeGreyscale img_step 4 3) =
     Inr [[Some 1, Some 0, Some 1, Some 0],
          [Some 1, Some 0, Some 1, Some 0],
          [Some 1, Some 0, Some 1, Some 0]]"
  unfolding greyscale_img_step
  by (simp add: computeGradient_def gradient_row_def gradient_max_def gradMagnitude_def
      greyscale_dx_def greyscale_dy_def row_len_def mat_get_def arr_get_def arr_set_def
      rows_set_def row_get_def Let_def upt_rec [of _ "numeral _"] upt_rec [of _ "Suc _"])

subsection \<open>The cost function of an untrained engine\<close>

lemma field_get_rect:
  assumes "f = Some m" "length m = h" "0 \<le> y" "y < int h"
  shows "field_get f y x = Inr (arr_get (m ! nat y) x)"
proof -
  have "nat y < length m" using assms by linarith
  then show ?thesis using assms by (simp add: field_get_def row_get_def)
qed

lemma gradUnitVector_rows:
  assumes "length gx = h" "length gy = h" "0 \<le> y" "y < int h"
  shows "\<exists>u. gradUnitVector gx gy x y = Inr u"
proof -
  have "nat y < h" using assms by linarith
  then show ?thesis
    using assms by (simp add: gradUnitVector_def row_get_def Let_def)
qed

lemma gradDirection_rows:
  assumes "length gx = h" "length gy = h" "0 \<le> py" "py < int h" "0 \<le> qy" "qy < int h"
  shows "\<exists>d. gradDirection gx gy px py qx qy = Inr d"
proof -
  obtain u v where "gradUnitVector gx gy px py = Inr u" "gradUnitVector gx gy qx qy = Inr v"
    using gradUnitVector_rows [OF assms(1,2,3,4)] gradUnitVector_rows [OF assms(1,2,5,6)]
    by blast
  then show ?thesis
    by (cases u; cases v) (simp add: gradDirection_def Let_def)
qed

lemma fields_ok_gradDirection:
  assumes "fields_ok s h w" "0 \<le> py" "py < int h" "0 \<le> qy" "qy < int h"
  shows "\<exists>d. scissors_gradDirection s px py qx qy = Inr d"
proof -
  obtain gx gy where g: "gradX s = Some gx" "length gx = h" "gradY s = Some gy" "length gy = h"
    using assms(1) by (auto simp: fields_ok_def rect_def)
  show ?thesis
    using gradDirection_rows [OF g(2,4) assms(2-5)] g by (simp add: scissors_gradDirection_def)
qed

text \<open>
  C4. On an engine whose fields have been built and that has not been trained, for
  pixels \<open>p\<close> and \<open>q\<close> of the image (8-adjacent or not), \<^verbatim>\<open>dist\<close> returns
  \<open>0.43 * g + 0.43 * laplace[q] + 0.11 * direction(p, q)\<close>, where \<open>g\<close> is
  \<open>gradient[q] * sqrt (1/2)\<close> when \<open>p\<close> and \<open>q\<close> share an \<open>x\<close> or a \<open>y\<close> coordinate and
  \<open>gradient[q]\<close> otherwise.
\<close>

theorem dist_untrained:
  assumes "fields_ok s h w" and "\<not> trained s"
    and "0 \<le> py" "py < int h" "0 \<le> qy" "qy < int h"
  shows "\<exists>g l d.
           field_get (gradient s) qy qx = Inr g \<and>
           field_get (laplace s) qy qx = Inr l \<and>
           scissors_gradDirection s px py qx qy = Inr d \<and>
           dist_cost s px py qx qy =
             Inr (num_add (num_add
                    (num_mul (Some 0.43)
                       (if px = qx \<or> py = qy then num_mul g (Some (sqrt (1 / 2))) else g))
                    (num_mul (Some 0.43) l))
                    (num_mul (Some 0.11) d))"
proof -
  obtain gr where gr: "gradient s = Some gr" "length gr = h"
    using assms(1) by (auto simp: fields_ok_def rect_def)
  obtain la where la: "laplace s = Some la" "length la = h"
    using assms(1) by (auto simp: fields_ok_def)
  obtain d where d: "scissors_gradDirection s px py qx qy = Inr d"
    using fields_ok_gradDirection [OF assms(1,3-6)] by blast
  have g: "field_get (gradient s) qy qx = Inr (arr_get (gr ! nat qy) qx)"
    using field_get_rect [OF gr assms(5,6)] .
  have l: "field_get (laplace s) qy qx = Inr (arr_get (la ! nat qy) qx)"
    using field_get_rect [OF la assms(5,6)] .
  show ?thesis
    using assms(2) by (simp add: dist_cost_def ebind_def g l d weigh3_def SQRT1_2_def Let_def)
qed

subsection \<open>The fields of the groove image\<close>

lemma SQRT1_2_cos: "SQRT1_2 = cos (pi / 4)"
  by (simp add: SQRT1_2_def cos_45 real_sqrt_divide real_div_sqrt)

lemma SQRT1_2_bounds: "0 < SQRT1_2" "SQRT1_2 < 1"
  by (simp_all add: SQRT1_2_def)

lemma arccos_SQRT1_2: "arccos SQRT1_2 = pi / 4"
  unfolding SQRT1_2_cos by (rule arccos_cos) simp_all

lemma arccos_minus_SQRT1_2: "arccos (- SQRT1_2) = 3 * pi / 4"
  using arccos_minus [of SQRT1_2] SQRT1_2_bounds by (simp add: arccos_SQRT1_2)

lemma num_acos_turns:
  "- 1 \<le> a \<Longrightarrow> a \<le> 1 \<Longrightarrow> num_acos (Some a) = Some (pi * turns a)"
  by (simp add: num_acos_def turns_def)

lemma turns_values:
  "turns 0 = 1 / 2" "turns 1 = 0" "turns (- 1) = 1"
  "turns SQRT1_2 = 1 / 4" "turns (- SQRT1_2) = 3 / 4"
  by (simp_all add: turns_def arccos_SQRT1_2 arccos_minus_SQRT1_2)

lemma direction_value:
  "num_mul (Some twothirdpi) (num_add (Some (pi * a)) (Some (pi * b))) = Some (2 * (a + b) / 3)"
  by (simp add: twothirdpi_def field_simps)

lemma dir_acos:
  assumes "- 1 \<le> a" "a \<le> 1" "- 1 \<le> b" "b \<le> 1"
  shows "num_mul (Some twothirdpi) (num_add (num_acos (Some a)) (num_acos (Some b)))
         = Some (2 * (turns a + turns b) / 3)"
  unfolding num_acos_turns [OF assms(1,2)] num_acos_turns [OF assms(3,4)]
  by (rule direction_value)

lemma num_None [simp]:
  "num_add None b = None" "num_add a None = None"
  "num_sub None b = None" "num_sub a None = None"
  "num_mul None b = None" "num_mul a None = None"
  "num_max None b = None" "num_max a None = None"
  "num_min None b = None" "num_min a None = None"
  "num_div None b = None" "num_div a None = None"
  "num_sqrt None = None" "num_acos None = None"
  by (simp_all add: num_add_def num_sub_def num_mul_def num_max_def num_min_def num_div_def
      num_sqrt_def num_acos_def)

lemmas upt_eval = upt_rec [of _ "numeral _"] upt_rec [of _ "Suc _"] upt_rec [of _ "0"] upt_rec [of _ "1"]

lemma greyscale_groove: "computeGreyscale img_groove 5 6 = groove_greyscale"
  by (simp add: img_groove_def groove_greyscale_def computeGreyscale_def Let_def data_get_def upt_eval)

lemma gradX_groove: "computeGradX groove_greyscale = groove_gradX"
  by (simp add: groove_greyscale_def groove_gradX_def computeGradX_def greyscale_dx_def
      row_len_def mat_get_def arr_get_def arr_set_def Let_def upt_eval)

lemma gradY_groove: "computeGradY groove_greyscale = Inr groove_gradY"
  by (simp add: groove_greyscale_def groove_gradY_def computeGradY_def greyscale_dy_def
      row_len_def mat_get_def arr_get_def arr_set_def rows_set_def row_get_def Let_def upt_eval)

lemma laplace_groove: "computeLaplace groove_greyscale = groove_laplace"
  by (simp add: groove_greyscale_def groove_laplace_def computeLaplace_def laplace_pad_def
      laplace_row_def greyscale_laplace_def num_gt_def
      row_len_def mat_get_def arr_get_def arr_set_def rows_set_def Let_def upt_eval)

lemma gradient_groove: "computeGradient groove_greyscale = Inr groove_gradient"
  by (simp add: groove_greyscale_def groove_gradient_def computeGradient_def gradient_row_def
      gradient_max_def gradMagnitude_def greyscale_dx_def greyscale_dy_def
      row_len_def mat_get_def arr_get_def arr_set_def rows_set_def row_get_def Let_def upt_eval
      num_div_def)

lemma setData_success_fields:
  assumes "setData d s = (Inr (), s')"
  shows "greyscale s' = Some (computeGreyscale d (width s) (height s))"
    and "laplace s' = Some (computeLaplace (computeGreyscale d (width s) (height s)))"
    and "computeGradient (computeGreyscale d (width s) (height s)) = Inr gr \<Longrightarrow>
         gradient s' = Some gr"
    and "gradX s' = Some (computeGradX (computeGreyscale d (width s) (height s)))"
    and "computeGradY (computeGreyscale d (width s) (height s)) = Inr gy \<Longrightarrow>
         gradY s' = Some gy"
    and "trained s' = trained s" and "width s' = width s" and "height s' = height s"
    and "searchGran s' = searchGran s" and "searchGranBits s' = searchGranBits s"
    and "pointsPerPost s' = pointsPerPost s"
  using assms by (auto simp: setData_def Let_def split: if_splits sum.splits)

lemma groove_engine_fields:
  "greyscale groove_engine = Some groove_greyscale"
  "laplace groove_engine = Some groove_laplace"
  "gradient groove_engine = Some groove_gradient"
  "gradX groove_engine = Some groove_gradX"
  "gradY groove_engine = Some groove_gradY"
  "trained groove_engine = False"
  "width groove_engine = 5"
  "height groove_engine = 6"
  "searchGran groove_engine = 1"
  "searchGranBits groove_engine = 8"
  "pointsPerPost groove_engine = 500"
  "fields_ok groove_engine 6 5"
proof -
  let ?s = "setDimensions 5 6 constructor"
  have w: "width ?s = 5" "height ?s = 6" by (simp_all add: setDimensions_def)
  have "4 * 5 * 6 \<le> length img_groove" by (simp add: img_groove_def)
  from setData_ok [of 5 6 ?s img_groove] this
  obtain s' where s': "setData img_groove ?s = (Inr (), s')" "fields_ok s' 6 5"
    using w by auto
  then have ge: "groove_engine = s'" by (simp add: groove_engine_def)
  note f = setData_success_fields [OF s'(1), unfolded w greyscale_groove]
  show "greyscale groove_engine = Some groove_greyscale"
    "laplace groove_engine = Some groove_laplace"
    "gradient groove_engine = Some groove_gradient"
    "gradX groove_engine = Some groove_gradX"
    "gradY groove_engine = Some groove_gradY"
    "trained groove_engine = False"
    "width groove_engine = 5"
    "height groove_engine = 6"
    "searchGran groove_engine = 1"
    "searchGranBits groove_engine = 8"
    "pointsPerPost groove_engine = 500"
    unfolding ge
    using f(1,2,4,6-11) f(3) [OF gradient_groove] f(5) [OF gradY_groove]
    by (simp_all add: laplace_groove gradX_groove setDimensions_def constructor_def js_shl_1_None)
  show "fields_ok groove_engine 6 5" using s'(2) ge by simp
qed

subsection \<open>What the search leaves alone\<close>

lemma field_get_cell:
  "field_get f y x = Inr v \<Longrightarrow> cell f (x, y) = v"
  by (auto simp: field_get_def cell_def row_get_def split: option.splits if_splits)

lemma field_get_ok:
  "f = Some m \<Longrightarrow> 0 \<le> y \<Longrightarrow> nat y < length m \<Longrightarrow> field_get f y x = Inr (cell f (x, y))"
  by (simp add: field_get_def cell_def row_get_def)

lemma field_set_ok:
  "f = Some m \<Longrightarrow> 0 \<le> y \<Longrightarrow> nat y < length m \<Longrightarrow>
   \<exists>m'. field_set f y x v = Inr m' \<and> length m' = length m"
  by (simp add: field_set_def row_get_def)

lemma field_set_cell:
  assumes "field_set f y x v = Inr m'"
  shows "cell (Some m') p = (if p = (x, y) \<and> 0 \<le> x then v else cell f p)"
    and "length m' = length (the f)"
proof -
  obtain m where m: "f = Some m" "0 \<le> y" "nat y < length m" "m' = m[nat y := arr_set (m ! nat y) x v]"
    using assms by (auto simp: field_set_def row_get_def split: option.splits if_splits)
  show "length m' = length (the f)" using m by simp
  show "cell (Some m') p = (if p = (x, y) \<and> 0 \<le> x then v else cell f p)"
  proof (cases "snd p = y")
    case True
    then show ?thesis
      using m by (cases p) (auto simp: cell_def arr_get_arr_set)
  next
    case False
    then have "nat (snd p) \<noteq> nat y \<or> snd p < 0" using m by linarith
    then show ?thesis
      using m False by (cases p) (auto simp: cell_def)
  qed
qed

lemma static_simps [simp]:
  "static (s\<lparr> pq := a \<rparr>) = static s"
  "static (s\<lparr> cost := b \<rparr>) = static s"
  "static (s\<lparr> parents := c \<rparr>) = static s"
  "static (s\<lparr> visited := d \<rparr>) = static s"
  "static (s\<lparr> curPoint := e \<rparr>) = static s"
  "static (s\<lparr> working := f \<rparr>) = static s"
  "static (s\<lparr> timeout_cleared := g \<rparr>) = static s"
  "static (static s) = static s"
  by (simp_all add: static_def)

lemma static_fields [simp]:
  "greyscale (static s) = greyscale s" "laplace (static s) = laplace s"
  "gradient (static s) = gradient s" "gradX (static s) = gradX s" "gradY (static s) = gradY s"
  "inside (static s) = inside s" "outside (static s) = outside s"
  "trained (static s) = trained s" "width (static s) = width s" "height (static s) = height s"
  "edgeTraining (static s) = edgeTraining s" "gradTraining (static s) = gradTraining s"
  "insideTraining (static s) = insideTraining s" "outsideTraining (static s) = outsideTraining s"
  "edgeGran (static s) = edgeGran s" "gradGran (static s) = gradGran s"
  "insideGran (static s) = insideGran s" "outsideGran (static s) = outsideGran s"
  "searchGran (static s) = searchGran s" "searchGranBits (static s) = searchGranBits s"
  "pointsPerPost (static s) = pointsPerPost s"
  by (simp_all add: static_def)

lemma getTrained_static:
  "getTrainedGrad (static s) = getTrainedGrad s"
  "getTrainedEdge (static s) = getTrainedEdge s"
  "getTrainedInside (static s) = getTrainedInside s"
  "getTrainedOutside (static s) = getTrainedOutside s"
  by (intro ext, simp add: getTrainedGrad_def getTrainedEdge_def getTrainedInside_def
      getTrainedOutside_def)+

lemma gradDirection_static: "scissors_gradDirection (static s) = scissors_gradDirection s"
  by (intro ext) (simp add: scissors_gradDirection_def split: option.splits)

lemma dist_cost_static: "dist_cost (static s) = dist_cost s"
  by (intro ext) (simp add: dist_cost_def gradDirection_static getTrained_static Let_def
      cong: if_cong)

lemma adj_static: "adj (static s) = adj s"
  by (intro ext) (simp add: adj_def)

lemma fields_ok_static: "fields_ok (static s) h w = fields_ok s h w"
  by (simp add: fields_ok_def)

lemma static_relax: "static (snd (relax p q s)) = static s"
  by (auto simp: relax_def Let_def split: sum.splits option.splits prod.splits)

lemma static_relax_all: "static (snd (relax_all p qs s)) = static s"
proof (induction qs arbitrary: s)
  case Nil
  then show ?case by simp
next
  case (Cons q qs)
  then show ?case
    by (simp add: and_then_def static_relax split: sum.splits)
qed

lemma static_relax_all_eq: "relax_all p qs s = (r, t) \<Longrightarrow> static t = static s"
  using static_relax_all [of p qs s] by simp

lemma static_expand: "static (snd (expand s)) = static s"
  by (auto simp: expand_def Let_def split: sum.splits option.splits prod.splits
      dest!: static_relax_all_eq)

lemma static_doWork_loop: "static (snd (doWork_loop n s acc)) = static s"
proof (induction n arbitrary: s acc)
  case 0
  then show ?case by (simp add: doWork_loop.simps [of 0] split: option.splits)
next
  case (Suc n)
  show ?case
  proof (cases "expand s")
    case (Pair r s')
    then have "static s' = static s" using static_expand [of s] by simp
    then show ?thesis
      using Pair Suc.IH [of s'] by (simp add: doWork_loop.simps [of "Suc n"] split: option.splits sum.splits)
  qed
qed

lemma static_doWork_loop_eq: "doWork_loop n s acc = (r, t) \<Longrightarrow> static t = static s"
  using static_doWork_loop [of n s acc] by simp

lemma static_doWork: "static (snd (doWork s)) = static s"
  by (auto simp: doWork_def Let_def split: prod.splits sum.splits dest!: static_doWork_loop_eq)

lemma static_setPoint: "static (snd (setPoint sp s)) = static s"
  by (simp add: setPoint_def setWorking_def Let_def split: sum.splits)

subsection \<open>The invariant of the search\<close>

lemma bq_scan_props:
  assumes "bq_scan q = Some i"
  shows "i < length (bq_buckets q)" "bq_buckets q ! i \<noteq> []"
proof -
  let ?n = "length (bq_buckets q)"
  from assms obtain rest where
    "filter (\<lambda>i. bq_buckets q ! i \<noteq> []) (map (\<lambda>k. (bq_loc q + k) mod ?n) [0..<?n]) = i # rest"
    by (auto simp: bq_scan_def Let_def split: list.splits)
  then have "i \<in> set (filter (\<lambda>i. bq_buckets q ! i \<noteq> []) (map (\<lambda>k. (bq_loc q + k) mod ?n) [0..<?n]))"
    by simp
  then obtain k where k: "k < ?n" "i = (bq_loc q + k) mod ?n" and ne: "bq_buckets q ! i \<noteq> []"
    by auto
  from k(1) have "0 < ?n" by linarith
  then have "(bq_loc q + k) mod ?n < ?n" by (rule mod_less_divisor)
  then show "i < length (bq_buckets q)" using k by simp
  show "bq_buckets q ! i \<noteq> []" by (rule ne)
qed

lemma bq_scan_nonempty:
  assumes "\<not> bq_isEmpty q"
  shows "\<exists>i. bq_scan q = Some i"
proof -
  let ?n = "length (bq_buckets q)"
  from assms obtain j where j: "j < ?n" "bq_buckets q ! j \<noteq> []"
    by (auto simp: bq_isEmpty_def list_all_length)
  then have n: "0 < ?n" by linarith
  then have lt: "bq_loc q mod ?n < ?n" by (rule mod_less_divisor)
  define k where "k = (j + ?n - bq_loc q mod ?n) mod ?n"
  have "k < ?n" using n by (simp add: k_def)
  moreover have "(bq_loc q + k) mod ?n = j"
  proof -
    have "(bq_loc q + k) mod ?n = (bq_loc q mod ?n + (j + ?n - bq_loc q mod ?n)) mod ?n"
      unfolding k_def by (simp add: mod_simps)
    also have "bq_loc q mod ?n + (j + ?n - bq_loc q mod ?n) = j + ?n"
      using lt by linarith
    also have "(j + ?n) mod ?n = j" using j by simp
    finally show ?thesis .
  qed
  ultimately have "j \<in> set (filter (\<lambda>i. bq_buckets q ! i \<noteq> []) (map (\<lambda>k. (bq_loc q + k) mod ?n) [0..<?n]))"
    using j by (auto simp: image_iff intro!: bexI [of _ k])
  then have "filter (\<lambda>i. bq_buckets q ! i \<noteq> []) (map (\<lambda>k. (bq_loc q + k) mod ?n) [0..<?n]) \<noteq> []"
    by (metis empty_iff list.set(1))
  then show ?thesis
    by (simp add: bq_scan_def Let_def split: list.splits)
qed

lemma bq_pop_props:
  assumes "bq_pop q = Inr (p, q')"
  shows "p \<in> queue_items q" "queue_items q' \<subseteq> queue_items q"
    "length (bq_buckets q') = length (bq_buckets q)" "bq_bits q' = bq_bits q"
    "bq_searchGran q' = bq_searchGran q"
proof -
  from assms obtain i where i: "bq_scan q = Some i" "p = hd (bq_buckets q ! i)"
    "q' = q\<lparr> bq_buckets := (bq_buckets q)[i := tl (bq_buckets q ! i)], bq_loc := i \<rparr>"
    by (auto simp: bq_pop_def split: option.splits)
  note s = bq_scan_props [OF i(1)]
  have "bq_buckets q ! i \<in> set (bq_buckets q)" using s by simp
  moreover have "p \<in> set (bq_buckets q ! i)" using s i by simp
  ultimately show "p \<in> queue_items q" unfolding queue_items_def by blast
  show "queue_items q' \<subseteq> queue_items q"
  proof
    fix x assume "x \<in> queue_items q'"
    then obtain b where b: "b \<in> set ((bq_buckets q)[i := tl (bq_buckets q ! i)])" "x \<in> set b"
      using i by (auto simp: queue_items_def)
    from b(1) have "b = tl (bq_buckets q ! i) \<or> b \<in> set (bq_buckets q)"
      using set_update_subset_insert [of "bq_buckets q" i] by auto
    then show "x \<in> queue_items q"
    proof
      assume "b = tl (bq_buckets q ! i)"
      then have "x \<in> set (bq_buckets q ! i)" using b s by (auto dest: list.set_sel(2))
      then show ?thesis using \<open>bq_buckets q ! i \<in> set (bq_buckets q)\<close> unfolding queue_items_def by blast
    next
      assume "b \<in> set (bq_buckets q)"
      then show ?thesis using b unfolding queue_items_def by blast
    qed
  qed
  show "length (bq_buckets q') = length (bq_buckets q)" "bq_bits q' = bq_bits q"
    "bq_searchGran q' = bq_searchGran q"
    using i by simp_all
qed

lemma bq_remove_props:
  "queue_items (bq_remove q p) \<subseteq> queue_items q"
  "length (bq_buckets (bq_remove q p)) = length (bq_buckets q)"
  "bq_bits (bq_remove q p) = bq_bits q"
  "bq_searchGran (bq_remove q p) = bq_searchGran q"
  using set_remove1_subset [of p] by (auto simp: bq_remove_def queue_items_def)

lemma bq_push_props:
  assumes "bq_push q c p = Inr q'"
  shows "queue_items q' \<subseteq> insert p (queue_items q)"
    "length (bq_buckets q') = length (bq_buckets q)" "bq_bits q' = bq_bits q"
    "bq_searchGran q' = bq_searchGran q"
proof -
  from assms obtain b where b: "bq_getBucket q c p = Inr b"
    "q' = q\<lparr> bq_buckets := (bq_buckets q)[b := bq_buckets q ! b @ [p]] \<rparr>"
    by (auto simp: bq_push_def split: sum.splits)
  show "queue_items q' \<subseteq> insert p (queue_items q)"
  proof
    fix x assume "x \<in> queue_items q'"
    then obtain bk where bk: "bk \<in> set ((bq_buckets q)[b := bq_buckets q ! b @ [p]])" "x \<in> set bk"
      using b by (auto simp: queue_items_def)
    show "x \<in> insert p (queue_items q)"
    proof (cases "b < length (bq_buckets q)")
      case True
      from bk(1) have "bk = bq_buckets q ! b @ [p] \<or> bk \<in> set (bq_buckets q)"
        using set_update_subset_insert [of "bq_buckets q" b] by auto
      then show ?thesis
        using bk(2) True nth_mem [OF True] unfolding queue_items_def by auto
    next
      case False
      then have "length (bq_buckets q) \<le> b" by linarith
      then have "(bq_buckets q)[b := bq_buckets q ! b @ [p]] = bq_buckets q"
        by (rule list_update_beyond)
      then show ?thesis using bk unfolding queue_items_def by auto
    qed
  qed
  show "length (bq_buckets q') = length (bq_buckets q)" "bq_bits q' = bq_bits q"
    "bq_searchGran q' = bq_searchGran q"
    using b by simp_all
qed

lemma nonneg_simps [simp]: "nonneg None" "nonneg (Some c) \<longleftrightarrow> 0 \<le> c"
  by (simp_all add: nonneg_def)

lemma nonneg_add: "nonneg a \<Longrightarrow> nonneg b \<Longrightarrow> nonneg (num_add a b)"
  by (cases a; cases b) simp_all

lemma nonneg_mul: "nonneg a \<Longrightarrow> nonneg b \<Longrightarrow> nonneg (num_mul a b)"
  by (cases a; cases b) simp_all

lemma nonneg_acos: "nonneg (num_acos a)"
  by (cases a) (simp_all add: num_acos_def arccos_lbound)

lemma twothirdpi_pos: "0 < twothirdpi"
  by (simp add: twothirdpi_def)

lemma SQRT1_2_nonneg: "0 \<le> SQRT1_2"
  by (simp add: SQRT1_2_def)

lemma gradDirection_nonneg: "gradDirection gx gy px py qx qy = Inr d \<Longrightarrow> nonneg d"
  using twothirdpi_pos
  by (auto simp: gradDirection_def Let_def split: sum.splits prod.splits
      intro!: nonneg_mul nonneg_add nonneg_acos)

lemma weigh3_nonneg:
  "0 \<le> a \<Longrightarrow> 0 \<le> b \<Longrightarrow> 0 \<le> c \<Longrightarrow> nonneg u \<Longrightarrow> nonneg v \<Longrightarrow> nonneg w \<Longrightarrow>
   nonneg (weigh3 a u b v c w)"
  unfolding weigh3_def by (intro nonneg_add nonneg_mul) simp_all

lemma in_unit_nonneg: "in_unit v \<Longrightarrow> nonneg v"
  by (auto simp: in_unit_def nonneg_def)

lemma bit01_nonneg: "bit01 v \<Longrightarrow> nonneg v"
  by (auto simp: bit01_def nonneg_def)

lemma table_get_ok: "table_ok t \<Longrightarrow> \<exists>v. table_get t i = Inr v \<and> nonneg v"
  by (cases i) (auto simp: table_ok_def table_get_def intro!: arr_get_P [where P = nonneg])

lemma field_get_P:
  assumes "f = Some m" "length m = h" "list_all (list_all P) m" "P None" "0 \<le> y" "y < int h"
  shows "\<exists>v. field_get f y x = Inr v \<and> P v"
proof -
  have y: "nat y < length m" using assms by linarith
  then have "list_all P (m ! nat y)" using assms(3) by (simp add: list_all_length)
  then have "P (arr_get (m ! nat y) x)" using assms(4) by (rule arr_get_P [rotated])
  then show ?thesis using assms y by (simp add: field_get_def row_get_def)
qed

lemma list_all_True: "list_all (list_all (\<lambda>v. True)) m"
  by (simp add: list_all_iff)

lemma dist_cost_ok:
  assumes "fields_ok s h w" "0 \<le> py" "py < int h" "0 \<le> qy" "qy < int h"
  shows "\<exists>d. dist_cost s px py qx qy = Inr d \<and> nonneg d"
proof -
  from assms(1) obtain g gr la gx gy ins ou where
    f: "greyscale s = Some g" "length g = h"
       "gradient s = Some gr" "length gr = h" "list_all (list_all in_unit) gr"
       "laplace s = Some la" "length la = h" "list_all (list_all bit01) la"
       "gradX s = Some gx" "length gx = h" "gradY s = Some gy" "length gy = h"
       "inside s = Some ins" "length ins = h" "outside s = Some ou" "length ou = h"
    and t: "table_ok (edgeTraining s)" "table_ok (gradTraining s)"
       "table_ok (insideTraining s)" "table_ok (outsideTraining s)"
    by (auto simp: fields_ok_def rect_def)
  obtain grad where grad: "field_get (gradient s) qy qx = Inr grad" "in_unit grad"
    using field_get_P [OF f(3,4,5) _ assms(4,5), of qx] by (auto simp: in_unit_def)
  obtain lap where lap: "field_get (laplace s) qy qx = Inr lap" "bit01 lap"
    using field_get_P [OF f(6,7,8) _ assms(4,5), of qx] by (auto simp: bit01_def)
  obtain dir where dir: "scissors_gradDirection s px py qx qy = Inr dir"
    using gradDirection_rows [OF f(10,12) assms(2-5), of px qx] f by (auto simp: scissors_gradDirection_def)
  then have ndir: "nonneg dir"
    using f gradDirection_nonneg by (auto simp: scissors_gradDirection_def)
  define grad' where "grad' = (if px = qx \<or> py = qy then num_mul grad (Some SQRT1_2) else grad)"
  have ngrad: "nonneg grad'"
    unfolding grad'_def using in_unit_nonneg [OF grad(2)] SQRT1_2_nonneg
    by (auto intro!: nonneg_mul)
  obtain e where e: "field_get (greyscale s) py px = Inr e"
    using field_get_P [OF f(1,2) list_all_True _ assms(2,3)] by auto
  obtain i where i: "field_get (inside s) py px = Inr i"
    using field_get_P [OF f(13,14) list_all_True _ assms(2,3)] by auto
  obtain o' where o': "field_get (outside s) py px = Inr o'"
    using field_get_P [OF f(15,16) list_all_True _ assms(2,3)] by auto
  obtain gradT where gradT: "getTrainedGrad s grad' = Inr gradT" "nonneg gradT"
    using table_get_ok [OF t(2)] unfolding getTrainedGrad_def by blast
  obtain edgeT where edgeT: "getTrainedEdge s e = Inr edgeT" "nonneg edgeT"
    using table_get_ok [OF t(1)] unfolding getTrainedEdge_def by blast
  obtain insideT where insideT: "getTrainedInside s i = Inr insideT" "nonneg insideT"
    using table_get_ok [OF t(3)] unfolding getTrainedInside_def by blast
  obtain outsideT where outsideT: "getTrainedOutside s o' = Inr outsideT" "nonneg outsideT"
    using table_get_ok [OF t(4)] unfolding getTrainedOutside_def by blast
  have eq: "dist_cost s px py qx qy =
      Inr (if trained s
           then weigh3 0.3 gradT 0.3 lap 0.1 (num_add (num_add (num_add dir edgeT) insideT) outsideT)
           else weigh3 0.43 grad' 0.43 lap 0.11 dir)"
    by (simp add: dist_cost_def ebind_def grad lap dir Let_def grad'_def [symmetric]
        gradT e edgeT i insideT o' outsideT)
  show ?thesis
    unfolding eq using ngrad ndir bit01_nonneg [OF lap(2)] gradT(2) edgeT(2) insideT(2) outsideT(2)
    by (auto intro!: weigh3_nonneg nonneg_add)
qed

lemma searchingD:
  assumes "searching h w seed s"
  shows "fields_ok s h w" and "in_bounds h w seed"
    and "\<exists>m. parents s = Some m \<and> length m = h"
    and "\<exists>m. visited s = Some m \<and> length m = h"
    and "\<exists>m. cost s = Some m \<and> length m = h"
    and "\<exists>q. pq s = Some q \<and> length (bq_buckets q) = 2 ^ bq_bits q \<and> bq_searchGran q \<noteq> None"
    and "\<forall>p \<in> pending s. in_bounds h w p \<and> (p \<noteq> seed \<longrightarrow> cell (parents s) p \<noteq> None)"
    and "cell (cost s) seed = Some 0" and "cell (parents s) seed = None"
    and "\<forall>p. in_bounds h w p \<longrightarrow> (\<exists>c. cell (cost s) p = Some c \<and> 0 \<le> c)"
    and "\<forall>p. cell (visited s) p = Some True \<longrightarrow> in_bounds h w p"
  using assms unfolding searching_def by simp_all

lemma bq_push_ok:
  assumes "c = Some m" "0 \<le> snd p" "nat (snd p) < length m" "cell c p = Some v" "bq_searchGran q = Some g"
  shows "\<exists>q'. bq_push q m p = Inr q'"
  using assms
  by (simp add: bq_push_def bq_getBucket_def pq_cost_def row_get_def cell_def)

lemma fields_ok_cong: "static s' = static s \<Longrightarrow> fields_ok s' h w = fields_ok s h w"
  using fields_ok_static [of s h w] fields_ok_static [of s' h w] by simp

lemma relax_searching:
  assumes inv: "searching h w seed s" and p: "in_bounds h w p" and q: "in_bounds h w q"
  shows "\<exists>s'. relax p q s = (Inr (), s') \<and> searching h w seed s' \<and>
           pending s' \<subseteq> insert q (pending s) \<and>
           (seed \<notin> pending s \<longrightarrow> seed \<notin> pending s') \<and> visited s' = visited s"
proof -
  note d = searchingD [OF inv]
  note f = d(1) and seed = d(2) and items = d(7) and c0 = d(8) and p0 = d(9)
    and costs = d(10) and visb = d(11)
  from d(3) obtain par where par: "parents s = Some par" "length par = h" by blast
  from d(4) obtain vis where vis: "visited s = Some vis" "length vis = h" by blast
  from d(5) obtain cm where cm: "cost s = Some cm" "length cm = h" by blast
  from d(6) obtain qu where qu: "pq s = Some qu" "length (bq_buckets qu) = 2 ^ bq_bits qu"
    "bq_searchGran qu \<noteq> None" by blast
  have py: "0 \<le> snd p" "nat (snd p) < h" "snd p < int h" and qy: "0 \<le> snd q" "nat (snd q) < h" "snd q < int h"
    and qx: "0 \<le> fst q"
    using p q by (auto simp: in_bounds_def)
  obtain a where a: "cell (cost s) p = Some a" "0 \<le> a" using costs p by blast
  obtain b where b: "cell (cost s) q = Some b" "0 \<le> b" using costs q by blast
  obtain d where d: "dist_cost s (fst p) (snd p) (fst q) (snd q) = Inr d" "nonneg d"
    using dist_cost_ok [OF f py(1,3) qy(1,3)] by blast
  have gp: "field_get (cost s) (snd p) (fst p) = Inr (Some a)"
    using field_get_ok [OF cm(1) py(1), of "fst p"] py cm a by simp
  have gq: "field_get (cost s) (snd q) (fst q) = Inr (Some b)"
    using field_get_ok [OF cm(1) qy(1), of "fst q"] qy cm b by simp
  have pre: "ebind (field_get (cost s) (snd p) (fst p)) (\<lambda>cp.
           ebind (dist_cost s (fst p) (snd p) (fst q) (snd q)) (\<lambda>d.
           ebind (field_get (cost s) (snd q) (fst q)) (\<lambda>cq. Inr (num_add cp d, cq))))
         = Inr (num_add (Some a) d, Some b)"
    by (simp add: ebind_def gp gq d)
  show ?thesis
  proof (cases "num_lt (num_add (Some a) d) (Some b)")
    case False
    then have "relax p q s = (Inr (), s)"
      unfolding relax_def pre by simp
    then show ?thesis using inv by auto
  next
    case True
    then obtain dv where dv: "d = Some dv" "a + dv < b" by (cases d) auto
    then have dv0: "0 \<le> dv" using d(2) by simp
    have qs: "q \<noteq> seed" using dv dv0 a b c0 by auto
    define qu1 where "qu1 = (if Some b \<noteq> Some MAX_VALUE then bq_remove qu q else qu)"
    define s1 where "s1 = (if Some b \<noteq> Some MAX_VALUE then s\<lparr> pq := Some (bq_remove qu q) \<rparr> else s)"
    have s1: "pq s1 = Some qu1" "cost s1 = cost s" "parents s1 = parents s" "visited s1 = visited s"
      "static s1 = static s"
      by (simp_all add: s1_def qu1_def qu)
    have qu1: "queue_items qu1 \<subseteq> queue_items qu" "length (bq_buckets qu1) = 2 ^ bq_bits qu1"
      "bq_searchGran qu1 \<noteq> None"
      using qu bq_remove_props [of qu q] by (auto simp: qu1_def)
    obtain cm' where cm': "field_set (cost s) (snd q) (fst q) (Some (a + dv)) = Inr cm'" "length cm' = h"
      using field_set_ok [OF cm(1) qy(1), of "fst q" "Some (a + dv)"] qy cm by auto
    obtain par' where par': "field_set (parents s) (snd q) (fst q) (Some p) = Inr par'" "length par' = h"
      using field_set_ok [OF par(1) qy(1), of "fst q" "Some p"] qy par by auto
    have ccell: "cell (Some cm') x = (if x = q then Some (a + dv) else cell (cost s) x)" for x
      using field_set_cell(1) [OF cm'(1), of x] qx by (cases q) auto
    have pcell: "cell (Some par') x = (if x = q then Some p else cell (parents s) x)" for x
      using field_set_cell(1) [OF par'(1), of x] qx by (cases q) auto
    obtain g where g: "bq_searchGran qu1 = Some g" using qu1(3) by auto
    obtain qu2 where qu2: "bq_push qu1 cm' q = Inr qu2"
      using bq_push_ok [OF refl qy(1) _ _ g, of cm' "a + dv"] cm'(2) qy ccell [of q] by auto
    note pp = bq_push_props [OF qu2]
    define s' where "s' = s1\<lparr> cost := Some cm', parents := Some par', pq := Some qu2 \<rparr>"
    have res: "relax p q s = (Inr (), s')"
    proof (cases "b = MAX_VALUE")
      case True
      then have "s1 = s" "qu1 = qu" by (simp_all add: s1_def qu1_def)
      then show ?thesis
        unfolding relax_def pre using \<open>num_lt (num_add (Some a) d) (Some b)\<close> True qu2
        by (simp add: qu cm' par' s'_def dv Let_def)
    next
      case False
      then have "s1 = s\<lparr> pq := Some (bq_remove qu q) \<rparr>" "qu1 = bq_remove qu q"
        by (simp_all add: s1_def qu1_def)
      then show ?thesis
        unfolding relax_def pre using \<open>num_lt (num_add (Some a) d) (Some b)\<close> False qu2
        by (simp add: qu cm' par' s'_def dv Let_def)
    qed
    have st: "static s' = static s" by (simp add: s'_def s1)
    have s'f: "cost s' = Some cm'" "parents s' = Some par'" "pq s' = Some qu2" "visited s' = visited s"
      by (simp_all add: s'_def s1)
    have pend: "pending s' \<subseteq> insert q (pending s)"
      using pp(1) qu1(1) by (auto simp: pending_def s'f qu)
    have "searching h w seed s'"
      unfolding searching_def
    proof (intro conjI)
      show "fields_ok s' h w" using f fields_ok_cong [OF st] by simp
      show "in_bounds h w seed" by (rule seed)
      show "\<exists>m. parents s' = Some m \<and> length m = h" using s'f par' by simp
      show "\<exists>m. visited s' = Some m \<and> length m = h" using s'f vis by simp
      show "\<exists>m. cost s' = Some m \<and> length m = h" using s'f cm' by simp
      show "\<exists>q. pq s' = Some q \<and> length (bq_buckets q) = 2 ^ bq_bits q \<and> bq_searchGran q \<noteq> None"
        using s'f pp qu1 by simp
      show "\<forall>x \<in> pending s'. in_bounds h w x \<and> (x \<noteq> seed \<longrightarrow> cell (parents s') x \<noteq> None)"
        using pend items q by (auto simp: s'f pcell)
      show "cell (cost s') seed = Some 0" using c0 qs by (simp add: s'f ccell)
      show "cell (parents s') seed = None" using p0 qs by (simp add: s'f pcell)
      show "\<forall>x. in_bounds h w x \<longrightarrow> (\<exists>c. cell (cost s') x = Some c \<and> 0 \<le> c)"
        using costs a dv0 by (auto simp: s'f ccell)
      show "\<forall>x. cell (visited s') x = Some True \<longrightarrow> in_bounds h w x"
        using visb by (simp add: s'f)
    qed
    moreover have "seed \<notin> pending s \<longrightarrow> seed \<notin> pending s'" using pend qs by auto
    ultimately show ?thesis using res pend s'f by auto
  qed
qed

lemma relax_all_searching:
  assumes "searching h w seed s" "in_bounds h w p" "\<forall>q \<in> set qs. in_bounds h w q"
  shows "\<exists>s'. relax_all p qs s = (Inr (), s') \<and> searching h w seed s' \<and>
           (seed \<notin> pending s \<longrightarrow> seed \<notin> pending s') \<and> visited s' = visited s"
  using assms
proof (induction qs arbitrary: s)
  case Nil
  then show ?case by simp
next
  case (Cons q qs)
  from relax_searching [OF Cons.prems(1,2), of q] Cons.prems(3)
  obtain s1 where s1: "relax p q s = (Inr (), s1)" "searching h w seed s1"
    "seed \<notin> pending s \<longrightarrow> seed \<notin> pending s1" "visited s1 = visited s"
    by auto
  from Cons.IH [OF s1(2) Cons.prems(2)] Cons.prems(3)
  obtain s' where "relax_all p qs s1 = (Inr (), s')" "searching h w seed s'"
    "seed \<notin> pending s1 \<longrightarrow> seed \<notin> pending s'" "visited s' = visited s1"
    by auto
  then show ?case using s1 by (simp add: and_then_def)
qed

lemma adj_ok:
  assumes "fields_ok s h w" "in_bounds h w p"
  shows "\<exists>l. adj s p = Inr l \<and> (\<forall>q \<in> set l. in_bounds h w q)"
proof -
  from assms(1) obtain g where g: "greyscale s = Some g" "rect g h w" "2 \<le> h"
    by (auto simp: fields_ok_def)
  then have l: "length g = h" "length (g ! 0) = w" "row_get g 0 = Inr (g ! 0)"
    by (auto simp: rect_def row_get_def)
  show ?thesis
    using assms(2) by (auto simp: adj_def g l Let_def in_bounds_def)
qed

lemma searching_visited_update:
  assumes "searching h w seed s" "in_bounds h w p"
    "field_set (visited s) (snd p) (fst p) (Some True) = Inr v" "pq s = Some qu"
    "queue_items qu' \<subseteq> queue_items qu" "length (bq_buckets qu') = length (bq_buckets qu)"
    "bq_bits qu' = bq_bits qu" "bq_searchGran qu' = bq_searchGran qu"
  shows "searching h w seed (s\<lparr> pq := Some qu', visited := Some v \<rparr>)"
proof -
  have st: "static (s\<lparr> pq := Some qu', visited := Some v \<rparr>) = static s" by simp
  have vc: "cell (Some v) x = (if x = p \<and> 0 \<le> fst p then Some True else cell (visited s) x)" for x
    using field_set_cell(1) [OF assms(3), of x] by (cases p) auto
  have lv: "length v = length (the (visited s))" using field_set_cell(2) [OF assms(3)] .
  let ?s' = "s\<lparr> pq := Some qu', visited := Some v \<rparr>"
  note d = searchingD [OF assms(1)]
  note f = d(1) and seed = d(2) and par = d(3) and vis = d(4) and cm = d(5) and qu = d(6)
    and items = d(7) and c0 = d(8) and p0 = d(9) and costs = d(10) and visb = d(11)
  have pend: "pending ?s' \<subseteq> pending s"
    using assms(4,5) by (simp add: pending_def)
  show ?thesis
    unfolding searching_def
  proof (intro conjI)
    show "fields_ok ?s' h w" using f fields_ok_cong [OF st] by simp
    show "in_bounds h w seed" by (rule seed)
    show "\<exists>m. parents ?s' = Some m \<and> length m = h" using par by simp
    show "\<exists>m. visited ?s' = Some m \<and> length m = h" using vis lv by auto
    show "\<exists>m. cost ?s' = Some m \<and> length m = h" using cm by simp
    show "\<exists>q. pq ?s' = Some q \<and> length (bq_buckets q) = 2 ^ bq_bits q \<and> bq_searchGran q \<noteq> None"
      using qu assms(4,6,7,8) by simp
    show "\<forall>p \<in> pending ?s'. in_bounds h w p \<and> (p \<noteq> seed \<longrightarrow> cell (parents ?s') p \<noteq> None)"
      using items pend by auto
    show "cell (cost ?s') seed = Some 0" using c0 by simp
    show "cell (parents ?s') seed = None" using p0 by simp
    show "\<forall>p. in_bounds h w p \<longrightarrow> (\<exists>c. cell (cost ?s') p = Some c \<and> 0 \<le> c)"
      using costs by simp
    show "\<forall>x. cell (visited ?s') x = Some True \<longrightarrow> in_bounds h w x"
      using visb assms(2) by (simp add: vc)
  qed
qed

lemma expand_searching:
  assumes inv: "searching h w seed s" and qu: "pq s = Some qu" and ne: "\<not> bq_isEmpty qu"
  shows "\<exists>p qu' s'. bq_pop qu = Inr (p, qu') \<and> p \<in> pending s \<and>
           expand s = (Inr (p, cell (parents s) p), s') \<and> searching h w seed s' \<and>
           (seed \<notin> queue_items qu' \<longrightarrow> seed \<notin> pending s')"
proof -
  obtain i where "bq_scan qu = Some i" using bq_scan_nonempty [OF ne] by blast
  then obtain p qu' where pop: "bq_pop qu = Inr (p, qu')"
    by (simp add: bq_pop_def)
  note pp = bq_pop_props [OF pop]
  have pin: "p \<in> pending s" using pp(1) qu by (simp add: pending_def)
  note d = searchingD [OF inv]
  from pin have pb: "in_bounds h w p" using d(7) by blast
  then have py: "0 \<le> snd p" "nat (snd p) < h" by (auto simp: in_bounds_def)
  from d(3) obtain par where par: "parents s = Some par" "length par = h" by blast
  from d(4) obtain vis where vis: "visited s = Some vis" "length vis = h" by blast
  note f = d(1)
  have gpar: "field_get (parents s) (snd p) (fst p) = Inr (cell (parents s) p)"
    using field_get_ok [OF par(1) py(1), of "fst p"] py par by simp
  obtain v where v: "field_set (visited s) (snd p) (fst p) (Some True) = Inr v"
    using field_set_ok [OF vis(1) py(1), of "fst p" "Some True"] py vis by auto
  define s1 where "s1 = s\<lparr> pq := Some qu', visited := Some v \<rparr>"
  have inv1: "searching h w seed s1"
    unfolding s1_def using searching_visited_update [OF inv pb v qu pp(2,3,4,5)] .
  have f1: "fields_ok s1 h w" using searchingD(1) [OF inv1] .
  obtain l where l: "adj s1 p = Inr l" "\<forall>q \<in> set l. in_bounds h w q"
    using adj_ok [OF f1 pb] by blast
  obtain s' where s': "relax_all p l s1 = (Inr (), s')" "searching h w seed s'"
    "seed \<notin> pending s1 \<longrightarrow> seed \<notin> pending s'"
    using relax_all_searching [OF inv1 pb l(2)] by blast
  have p1: "pending s1 = queue_items qu'" by (simp add: pending_def s1_def)
  have "expand s = (Inr (p, cell (parents s) p), s')"
    unfolding expand_def
    by (simp add: qu pop gpar v Let_def s1_def [symmetric] l s')
  then show ?thesis using pop pin s' p1 by auto
qed

lemma doWork_loop_searching:
  assumes "searching h w seed s"
  shows "\<exists>pts s'. doWork_loop n s acc = (Inr (acc @ pts), s') \<and> searching h w seed s' \<and>
           (\<forall>(p, par) \<in> set pts. in_bounds h w p) \<and>
           (seed \<notin> pending s \<longrightarrow>
              seed \<notin> pending s' \<and> (\<forall>(p, par) \<in> set pts. p \<noteq> seed \<and> par \<noteq> None))"
  using assms
proof (induction n arbitrary: s acc)
  case 0
  then obtain qu where "pq s = Some qu" using searchingD(6) by blast
  then have "doWork_loop 0 s acc = (Inr (acc @ []), s)"
    by (simp add: doWork_loop.simps [of 0])
  then show ?case using 0 by (intro exI [of _ "[]"] exI [of _ s]) simp
next
  case (Suc n)
  then obtain qu where qu: "pq s = Some qu" using searchingD(6) by blast
  show ?case
  proof (cases "bq_isEmpty qu")
    case True
    then have "doWork_loop (Suc n) s acc = (Inr (acc @ []), s)"
      using qu by (simp add: doWork_loop.simps [of "Suc n"])
    then show ?thesis using Suc.prems by (intro exI [of _ "[]"] exI [of _ s]) simp
  next
    case False
    from expand_searching [OF Suc.prems qu False]
    obtain p qu' s1 where e: "bq_pop qu = Inr (p, qu')" "p \<in> pending s"
      "expand s = (Inr (p, cell (parents s) p), s1)" "searching h w seed s1"
      "seed \<notin> queue_items qu' \<longrightarrow> seed \<notin> pending s1"
      by blast
    from Suc.IH [OF e(4), of "acc @ [(p, cell (parents s) p)]"]
    obtain pts s' where l: "doWork_loop n s1 (acc @ [(p, cell (parents s) p)])
        = (Inr ((acc @ [(p, cell (parents s) p)]) @ pts), s')" "searching h w seed s'"
      "\<forall>(p, par) \<in> set pts. in_bounds h w p"
      "seed \<notin> pending s1 \<longrightarrow>
         seed \<notin> pending s' \<and> (\<forall>(p, par) \<in> set pts. p \<noteq> seed \<and> par \<noteq> None)"
      by blast
    have res: "doWork_loop (Suc n) s acc = (Inr (acc @ ((p, cell (parents s) p) # pts)), s')"
      using qu False e(3) l(1) by (simp add: doWork_loop.simps [of "Suc n"])
    have "seed \<notin> pending s \<longrightarrow>
            seed \<notin> pending s' \<and>
            (\<forall>(p, par) \<in> set ((p, cell (parents s) p) # pts). p \<noteq> seed \<and> par \<noteq> None)"
    proof
      assume ns: "seed \<notin> pending s"
      then have "seed \<notin> queue_items qu'"
        using bq_pop_props(2) [OF e(1)] qu by (auto simp: pending_def)
      then have "seed \<notin> pending s1" using e(5) by simp
      moreover have "p \<noteq> seed" using e(2) ns by auto
      moreover have "cell (parents s) p \<noteq> None"
        using searchingD(7) [OF Suc.prems] e(2) \<open>p \<noteq> seed\<close> by blast
      ultimately show "seed \<notin> pending s' \<and>
            (\<forall>(p, par) \<in> set ((p, cell (parents s) p) # pts). p \<noteq> seed \<and> par \<noteq> None)"
        using l(4) by simp
    qed
    moreover have "in_bounds h w p" using searchingD(7) [OF Suc.prems] e(2) by blast
    then have "\<forall>(p, par) \<in> set ((p, cell (parents s) p) # pts). in_bounds h w p"
      using l(3) by simp
    ultimately show ?thesis using res l(2) by blast
  qed
qed

lemma MAX_VALUE_pos: "0 < MAX_VALUE"
  by (simp add: MAX_VALUE_def)

lemma working_relax: "working (snd (relax p q s)) = working s"
  by (auto simp: relax_def Let_def split: sum.splits option.splits prod.splits)

lemma working_relax_all: "working (snd (relax_all p qs s)) = working s"
proof (induction qs arbitrary: s)
  case Nil
  then show ?case by simp
next
  case (Cons q qs)
  show ?case
  proof (cases "relax p q s")
    case (Pair r t)
    then have "working t = working s" using working_relax [of p q s] by simp
    then show ?thesis using Pair Cons.IH [of t] by (simp add: and_then_def split: sum.splits)
  qed
qed

lemma working_relax_all_eq: "relax_all p qs s = (r, t) \<Longrightarrow> working t = working s"
  using working_relax_all [of p qs s] by simp

lemma working_expand: "working (snd (expand s)) = working s"
  by (auto simp: expand_def Let_def split: sum.splits option.splits prod.splits
      dest!: working_relax_all_eq)

lemma working_doWork_loop: "working (snd (doWork_loop n s acc)) = working s"
proof (induction n arbitrary: s acc)
  case 0
  then show ?case by (simp add: doWork_loop.simps [of 0] split: option.splits)
next
  case (Suc n)
  show ?case
  proof (cases "expand s")
    case (Pair r s')
    then have "working s' = working s" using working_expand [of s] by simp
    then show ?thesis
      using Pair Suc.IH [of s'] by (simp add: doWork_loop.simps [of "Suc n"] split: option.splits sum.splits)
  qed
qed

lemma searching_timeout:
  "searching h w seed (s\<lparr> timeout_cleared := b \<rparr>) = searching h w seed s"
  by (simp add: searching_def fields_ok_def pending_def)

lemma doWork_searching:
  assumes "searching h w seed s" "working s"
  shows "\<exists>batch s'. doWork s = (Inr (Some batch), s') \<and> searching h w seed s' \<and> working s' \<and>
           static s' = static s \<and> (\<forall>(p, par) \<in> set batch. in_bounds h w p) \<and>
           (seed \<notin> pending s \<longrightarrow>
              seed \<notin> pending s' \<and> (\<forall>(p, par) \<in> set batch. p \<noteq> seed \<and> par \<noteq> None))"
proof -
  let ?s = "s\<lparr> timeout_cleared := True \<rparr>"
  have inv: "searching h w seed ?s" using assms(1) by (simp add: searching_timeout)
  have pend: "pending ?s = pending s" by (simp add: pending_def)
  from doWork_loop_searching [OF inv, of "pointsPerPost ?s" "[]"]
  obtain pts s' where l: "doWork_loop (pointsPerPost ?s) ?s [] = (Inr pts, s')"
    "searching h w seed s'" "\<forall>(p, par) \<in> set pts. in_bounds h w p"
    "seed \<notin> pending s \<longrightarrow> seed \<notin> pending s' \<and> (\<forall>(p, par) \<in> set pts. p \<noteq> seed \<and> par \<noteq> None)"
    unfolding pend by auto
  have "working s'" using working_doWork_loop [of "pointsPerPost ?s" ?s "[]"] l(1) assms(2) by simp
  moreover have "static s' = static s"
    using static_doWork_loop_eq [OF l(1)] by simp
  moreover have "doWork s = (Inr (Some pts), s')"
    using assms(2) l(1) by (simp add: doWork_def Let_def)
  ultimately show ?thesis using l by blast
qed

lemma bq_pop_single:
  assumes "bq_buckets q = (replicate n [])[b := [x]]" "b < n" "bq_pop q = Inr (p, q')"
  shows "p = x" "queue_items q' = {}"
proof -
  from assms(3) obtain i where i: "bq_scan q = Some i" "p = hd (bq_buckets q ! i)"
    "q' = q\<lparr> bq_buckets := (bq_buckets q)[i := tl (bq_buckets q ! i)], bq_loc := i \<rparr>"
    by (auto simp: bq_pop_def split: option.splits)
  note s = bq_scan_props [OF i(1)]
  have ib: "i = b"
  proof (rule ccontr)
    assume "i \<noteq> b"
    then have "bq_buckets q ! i = []" using s(1) assms(1,2) by simp
    then show False using s(2) by simp
  qed
  show "p = x" using i(2) ib assms(1,2) by simp
  have "bq_buckets q' = replicate n []"
    using i(3) ib assms(1,2) by (simp add: list_update_same_conv)
  then show "queue_items q' = {}" by (simp add: queue_items_def)
qed

lemma single_bucket_items:
  assumes "b < n"
  shows "(\<Union>bk \<in> set ((replicate n [])[b := [x]]). set bk) = {x}"
proof -
  have "[x] \<in> set ((replicate n [])[b := [x]])"
    using assms by (simp add: set_update_memI)
  moreover have "set ((replicate n [])[b := [x]]) \<subseteq> insert [x] (set (replicate n []))"
    by (rule set_update_subset_insert)
  ultimately show ?thesis by auto
qed

lemma setPoint_searching:
  assumes f: "fields_ok s h w" and seed: "in_bounds h w seed"
  shows "\<exists>s1 qu b. setPoint seed s = (Inr (), s1) \<and> searching h w seed s1 \<and> working s1 \<and>
           static s1 = static s \<and> pq s1 = Some qu \<and>
           bq_buckets qu = (replicate (2 ^ searchGranBits s) [])[b := [seed]] \<and>
           b < 2 ^ searchGranBits s"
proof -
  have wh: "width s = int w" "height s = int h" using f by (auto simp: fields_ok_def)
  have sy: "0 \<le> snd seed" "nat (snd seed) < h" "0 \<le> fst seed" "nat (fst seed) < w"
    using seed by (auto simp: in_bounds_def)
  define c where "c = replicate h (replicate w (Some MAX_VALUE))"
  define q0 where "q0 = (bq_new (searchGranBits s))\<lparr> bq_searchGran := Some (searchGran s) \<rparr>"
  define b where "b = nat (js_round (real_of_int (searchGran s) * MAX_VALUE) mod 2 ^ searchGranBits s)"
  have bl: "b < 2 ^ searchGranBits s"
  proof -
    have "js_round (real_of_int (searchGran s) * MAX_VALUE) mod 2 ^ searchGranBits s
            < 2 ^ searchGranBits s" by simp
    then show ?thesis unfolding b_def by (simp add: nat_less_iff)
  qed
  define q1 where "q1 = q0\<lparr> bq_buckets := (replicate (2 ^ searchGranBits s) [])[b := [seed]] \<rparr>"
  have push: "bq_push q0 c seed = Inr q1"
    using sy bl
    by (simp add: bq_push_def bq_getBucket_def pq_cost_def row_get_def c_def arr_get_def q0_def
        bq_new_def b_def q1_def)
  obtain c' where c': "field_set (Some c) (snd seed) (fst seed) (Some 0) = Inr c'" "length c' = h"
    using field_set_ok [OF refl sy(1), of c "fst seed" "Some 0"] sy by (auto simp: c_def)
  have ccell: "cell (Some c') x = (if x = seed then Some 0 else cell (Some c) x)" for x
    using field_set_cell(1) [OF c'(1), of x] sy by (cases seed) auto
  have cc: "cell (Some c) x = Some MAX_VALUE" if "in_bounds h w x" for x
    using that by (auto simp: cell_def c_def arr_get_def in_bounds_def)
  define s1 where "s1 = s\<lparr> working := True, curPoint := Some seed,
      visited := Some (replicate h (replicate w (Some False))),
      parents := Some (replicate h []), cost := Some c', pq := Some q1 \<rparr>"
  have res: "setPoint seed s = (Inr (), s1)"
    unfolding setPoint_def
    by (simp add: setWorking_def wh Let_def map_replicate_const c_def [symmetric] q0_def [symmetric]
        push c' s1_def)
  have pend: "pending s1 = {seed}"
    using single_bucket_items [OF bl, of seed] by (simp add: pending_def s1_def q1_def queue_items_def)
  have st: "static s1 = static s" by (simp add: s1_def static_def)
  have pc: "cell (Some (replicate h ([] :: point option list))) x = None" for x
    by (simp add: cell_def)
  have vc: "cell (Some (replicate h (replicate w (Some False)))) x \<noteq> Some True" for x
    by (simp add: cell_def arr_get_def)
  have "searching h w seed s1"
    unfolding searching_def
  proof (intro conjI)
    show "fields_ok s1 h w" using f fields_ok_cong [OF st] by simp
    show "in_bounds h w seed" by (rule seed)
    show "\<exists>m. parents s1 = Some m \<and> length m = h" by (simp add: s1_def)
    show "\<exists>m. visited s1 = Some m \<and> length m = h" by (simp add: s1_def)
    show "\<exists>m. cost s1 = Some m \<and> length m = h" using c' by (simp add: s1_def)
    show "\<exists>q. pq s1 = Some q \<and> length (bq_buckets q) = 2 ^ bq_bits q \<and> bq_searchGran q \<noteq> None"
      by (simp add: s1_def q1_def q0_def bq_new_def)
    show "\<forall>p \<in> pending s1. in_bounds h w p \<and> (p \<noteq> seed \<longrightarrow> cell (parents s1) p \<noteq> None)"
      using seed by (simp add: pend)
    show "cell (cost s1) seed = Some 0" by (simp add: s1_def ccell)
    show "cell (parents s1) seed = None" by (simp add: s1_def pc)
    show "\<forall>p. in_bounds h w p \<longrightarrow> (\<exists>c. cell (cost s1) p = Some c \<and> 0 \<le> c)"
      using cc MAX_VALUE_pos by (simp add: s1_def ccell less_imp_le)
    show "\<forall>p. cell (visited s1) p = Some True \<longrightarrow> in_bounds h w p"
      using vc by (simp add: s1_def)
  qed
  moreover have "working s1" "pq s1 = Some q1"
    "bq_buckets q1 = (replicate (2 ^ searchGranBits s) [])[b := [seed]]"
    by (simp_all add: s1_def q1_def)
  ultimately show ?thesis using res st bl by blast
qed

lemma first_doWork:
  assumes f: "fields_ok s h w" and seed: "in_bounds h w seed" and ppp: "0 < pointsPerPost s"
  shows "\<exists>s1 rest s2. setPoint seed s = (Inr (), s1) \<and> searching h w seed s1 \<and> working s1 \<and>
           doWork s1 = (Inr (Some ((seed, None) # rest)), s2) \<and>
           (\<forall>(p, par) \<in> set rest. p \<noteq> seed \<and> par \<noteq> None) \<and>
           searching h w seed s2 \<and> working s2 \<and> seed \<notin> pending s2"
proof -
  from setPoint_searching [OF f seed]
  obtain s1 qu b where s1: "setPoint seed s = (Inr (), s1)" "searching h w seed s1" "working s1"
    "static s1 = static s" "pq s1 = Some qu"
    "bq_buckets qu = (replicate (2 ^ searchGranBits s) [])[b := [seed]]" "b < 2 ^ searchGranBits s"
    by blast
  let ?t = "s1\<lparr> timeout_cleared := True \<rparr>"
  have inv: "searching h w seed ?t" using s1(2) by (simp add: searching_timeout)
  have qt: "pq ?t = Some qu" using s1(5) by simp
  have "bq_buckets qu ! b = [seed]" using s1(6,7) by simp
  moreover have "b < length (bq_buckets qu)" using s1(6,7) by simp
  ultimately have ne: "\<not> bq_isEmpty qu"
    by (auto simp: bq_isEmpty_def list_all_length)
  from expand_searching [OF inv qt ne]
  obtain p qu' s2 where e: "bq_pop qu = Inr (p, qu')"
    "expand ?t = (Inr (p, cell (parents ?t) p), s2)" "searching h w seed s2"
    "seed \<notin> queue_items qu' \<longrightarrow> seed \<notin> pending s2"
    by blast
  note single = bq_pop_single [OF s1(6,7) e(1)]
  have par0: "cell (parents ?t) p = None"
    using searchingD(9) [OF inv] single(1) by simp
  have ns: "seed \<notin> pending s2" using e(4) single(2) by simp
  have pp: "pointsPerPost ?t = pointsPerPost s"
    using arg_cong [OF s1(4), of pointsPerPost] by simp
  obtain n where n: "pointsPerPost ?t = Suc n"
    using ppp pp by (metis gr0_implies_Suc)
  from doWork_loop_searching [OF e(3), of n "[(seed, None)]"] ns
  obtain pts s3 where l: "doWork_loop n s2 [(seed, None)] = (Inr ([(seed, None)] @ pts), s3)"
    "searching h w seed s3" "seed \<notin> pending s3"
    "\<forall>(p, par) \<in> set pts. p \<noteq> seed \<and> par \<noteq> None"
    by auto
  have "doWork_loop (Suc n) ?t [] = (Inr ((seed, None) # pts), s3)"
    using qt ne e(2) l(1) single(1) par0 by (simp add: doWork_loop.simps [of "Suc n"])
  then have dw: "doWork s1 = (Inr (Some ((seed, None) # pts)), s3)"
    using s1(3) n by (simp add: doWork_def Let_def)
  have "working s3"
    using working_doWork_loop [of "Suc n" ?t "[]"] \<open>doWork_loop (Suc n) ?t [] = _\<close> s1(3) by simp
  then show ?thesis using s1 dw l by blast
qed

subsection \<open>Costs only decrease\<close>

lemma lowered_refl: "lowered s s"
  by (simp add: lowered_def)

lemma lowered_trans: "lowered s t \<Longrightarrow> lowered t u \<Longrightarrow> lowered s u"
  unfolding lowered_def
proof (intro allI)
  fix p
  assume a: "\<forall>p. (cell (cost t) p = cell (cost s) p \<and> cell (parents t) p = cell (parents s) p) \<or>
          (\<exists>c c'. cell (cost s) p = Some c \<and> cell (cost t) p = Some c' \<and> c' < c)"
    and b: "\<forall>p. (cell (cost u) p = cell (cost t) p \<and> cell (parents u) p = cell (parents t) p) \<or>
          (\<exists>c c'. cell (cost t) p = Some c \<and> cell (cost u) p = Some c' \<and> c' < c)"
  from a [rule_format, of p] b [rule_format, of p]
  show "(cell (cost u) p = cell (cost s) p \<and> cell (parents u) p = cell (parents s) p) \<or>
          (\<exists>c c'. cell (cost s) p = Some c \<and> cell (cost u) p = Some c' \<and> c' < c)"
    by (elim disjE exE conjE) (simp_all, force+)
qed

lemma stays_visited_refl: "stays_visited s s"
  by (simp add: stays_visited_def)

lemma stays_visited_trans: "stays_visited s t \<Longrightarrow> stays_visited t u \<Longrightarrow> stays_visited s u"
  by (simp add: stays_visited_def)

lemma visited_relax: "visited (snd (relax p q s)) = visited s"
  by (auto simp: relax_def Let_def split: sum.splits option.splits prod.splits)

lemma visited_relax_all: "visited (snd (relax_all p qs s)) = visited s"
proof (induction qs arbitrary: s)
  case Nil
  then show ?case by simp
next
  case (Cons q qs)
  show ?case
  proof (cases "relax p q s")
    case (Pair r t)
    then have "visited t = visited s" using visited_relax [of p q s] by simp
    then show ?thesis using Pair Cons.IH [of t] by (simp add: and_then_def split: sum.splits)
  qed
qed

lemma lowered_relax: "lowered s (snd (relax p q s))"
proof (cases "ebind (field_get (cost s) (snd p) (fst p)) (\<lambda>cp.
           ebind (dist_cost s (fst p) (snd p) (fst q) (snd q)) (\<lambda>d.
           ebind (field_get (cost s) (snd q) (fst q)) (\<lambda>cq. Inr (num_add cp d, cq))))")
  case (Inl e)
  then show ?thesis by (simp add: relax_def lowered_refl)
next
  case (Inr pr)
  obtain pqCost cq where pr: "pr = (pqCost, cq)" by (cases pr)
  have cq: "cell (cost s) q = cq"
    using Inr pr field_get_cell [of "cost s" "snd q" "fst q"]
    by (auto simp: ebind_def split: sum.splits)
  show ?thesis
  proof (cases "num_lt pqCost cq")
    case False
    then show ?thesis using Inr pr by (simp add: relax_def lowered_refl)
  next
    case True
    then obtain a b where ab: "pqCost = Some a" "cq = Some b" "a < b"
      by (cases pqCost; cases cq) auto
    show ?thesis
    proof (cases "pq s")
      case None
      then show ?thesis using Inr pr True by (simp add: relax_def lowered_refl)
    next
      case (Some qu)
      define s1 where "s1 = (if cq \<noteq> Some MAX_VALUE then s\<lparr> pq := Some (bq_remove qu q) \<rparr> else s)"
      have s1: "cost s1 = cost s" "parents s1 = parents s" by (simp_all add: s1_def)
      show ?thesis
      proof (cases "field_set (cost s) (snd q) (fst q) pqCost")
        case (Inl e)
        then have "relax p q s = (Inl e, s1)"
          using \<open>_ = Inr pr\<close> pr True Some by (simp add: relax_def s1_def Let_def)
        then show ?thesis by (simp add: lowered_def s1)
      next
        case (Inr c)
        note c = field_set_cell(1) [OF Inr]
        have low1: "lowered s (s1\<lparr> cost := Some c \<rparr>)"
          unfolding lowered_def using cq ab by (auto simp: c s1)
        show ?thesis
        proof (cases "field_set (parents s) (snd q) (fst q) (Some p)")
          case (Inl e)
          then have "relax p q s = (Inl e, s1\<lparr> cost := Some c \<rparr>)"
            using \<open>ebind _ _ = Inr pr\<close> pr True Some Inr
            by (simp add: relax_def s1_def Let_def)
          then show ?thesis using low1 by simp
        next
          case par: (Inr par)
          note pc = field_set_cell(1) [OF par]
          define qu1 where "qu1 = (if cq \<noteq> Some MAX_VALUE then bq_remove qu q else qu)"
          define s2 where "s2 = s1\<lparr> cost := Some c, parents := Some par \<rparr>"
          have low2: "lowered s s2" "lowered s (s2\<lparr> pq := x \<rparr>)" for x
            unfolding lowered_def s2_def using cq ab by (auto simp: c pc s1)
          have "relax p q s =
                  (case bq_push qu1 c q of
                     Inl e \<Rightarrow> (Inl e, s2)
                   | Inr qu' \<Rightarrow> (Inr (), s2\<lparr> pq := Some qu' \<rparr>))"
            using \<open>ebind _ _ = Inr pr\<close> pr True Some Inr par
            by (cases "cq = Some MAX_VALUE")
               (simp_all add: relax_def s1_def s2_def qu1_def Let_def split: sum.splits)
          then show ?thesis using low2 by (cases "bq_push qu1 c q") simp_all
        qed
      qed
    qed
  qed
qed

lemma lowered_relax_all: "lowered s (snd (relax_all p qs s))"
proof (induction qs arbitrary: s)
  case Nil
  then show ?case by (simp add: lowered_refl)
next
  case (Cons q qs)
  show ?case
  proof (cases "relax p q s")
    case (Pair r t)
    then have l: "lowered s t" using lowered_relax [of s p q] by simp
    show ?thesis
    proof (cases r)
      case (Inl e)
      then show ?thesis using Pair l by (simp add: and_then_def)
    next
      case (Inr u)
      then show ?thesis
        using Pair lowered_trans [OF l Cons.IH [of t]] by (simp add: and_then_def)
    qed
  qed
qed

lemma expand_effects:
  "lowered s (snd (expand s))"
  "stays_visited s (snd (expand s))"
  "fst (expand s) = Inr (p, par) \<Longrightarrow> 0 \<le> fst p \<Longrightarrow> cell (visited (snd (expand s))) p = Some True"
proof -
  have l: "lowered s (s\<lparr> pq := x \<rparr>)" for x by (simp add: lowered_def)
  have v: "stays_visited s (s\<lparr> pq := x \<rparr>)" for x by (simp add: stays_visited_def)
  have main: "lowered s (snd (expand s)) \<and> stays_visited s (snd (expand s)) \<and>
      (fst (expand s) = Inr (p, par) \<longrightarrow> 0 \<le> fst p \<longrightarrow>
         cell (visited (snd (expand s))) p = Some True)"
  proof (cases "pq s")
    case None
    then show ?thesis by (simp add: expand_def lowered_refl stays_visited_refl)
  next
    case (Some qu)
    show ?thesis
    proof (cases "bq_pop qu")
      case (Inl e)
      then show ?thesis using Some by (simp add: expand_def lowered_refl stays_visited_refl)
    next
      case (Inr pr)
      obtain p' qu' where pr: "pr = (p', qu')" by (cases pr)
      show ?thesis
      proof (cases "field_get (parents s) (snd p') (fst p')")
        case (Inl e)
        then show ?thesis using Some Inr pr l v by (simp add: expand_def Let_def)
      next
        case par': (Inr par')
        show ?thesis
        proof (cases "field_set (visited s) (snd p') (fst p') (Some True)")
          case (Inl e)
          then show ?thesis using Some Inr pr par' l v by (simp add: expand_def Let_def)
        next
          case vis: (Inr vis)
          note vc = field_set_cell(1) [OF vis]
          define s1 where "s1 = s\<lparr> pq := Some qu', visited := Some vis \<rparr>"
          have l1: "lowered s s1" by (simp add: lowered_def s1_def)
          have v1: "stays_visited s s1" by (simp add: stays_visited_def s1_def vc)
          have p1: "0 \<le> fst p' \<longrightarrow> cell (visited s1) p' = Some True"
            by (cases p') (simp add: s1_def vc)
          show ?thesis
          proof (cases "adj s1 p'")
            case (Inl e)
            then have "expand s = (Inl e, s1)"
              using Some Inr pr par' vis by (simp add: expand_def Let_def s1_def)
            then show ?thesis using l1 v1 by simp
          next
            case adj: (Inr adjList)
            obtain r t where rt: "relax_all p' adjList s1 = (r, t)" by (cases "relax_all p' adjList s1")
            have lt: "lowered s t" using lowered_trans [OF l1 lowered_relax_all [of s1 p' adjList]] rt by simp
            have vt: "visited t = visited s1" using visited_relax_all [of p' adjList s1] rt by simp
            have "expand s = (case r of Inl e \<Rightarrow> (Inl e, t) | Inr u \<Rightarrow> (Inr (p', par'), t))"
              using Some Inr pr par' vis adj rt by (simp add: expand_def Let_def s1_def split: sum.splits)
            then show ?thesis
              using lt v1 p1 vt by (cases r) (auto simp: stays_visited_def)
          qed
        qed
      qed
    qed
  qed
  from main show "lowered s (snd (expand s))" "stays_visited s (snd (expand s))"
    "fst (expand s) = Inr (p, par) \<Longrightarrow> 0 \<le> fst p \<Longrightarrow> cell (visited (snd (expand s))) p = Some True"
    by simp_all
qed

lemma doWork_loop_effects:
  "lowered s (snd (doWork_loop n s acc)) \<and> stays_visited s (snd (doWork_loop n s acc)) \<and>
   (\<forall>pts. fst (doWork_loop n s acc) = Inr pts \<longrightarrow>
      (\<forall>(p, par) \<in> set acc. 0 \<le> fst p \<longrightarrow> cell (visited s) p = Some True) \<longrightarrow>
      (\<forall>(p, par) \<in> set pts. 0 \<le> fst p \<longrightarrow> cell (visited (snd (doWork_loop n s acc))) p = Some True))"
proof (induction n arbitrary: s acc)
  case 0
  show ?case
    by (auto simp: doWork_loop.simps [of 0] lowered_refl stays_visited_refl split: option.splits)
next
  case (Suc n)
  show ?case
  proof (cases "pq s")
    case None
    then show ?thesis by (simp add: doWork_loop.simps [of "Suc n"] lowered_refl stays_visited_refl)
  next
    case (Some qu)
    show ?thesis
    proof (cases "bq_isEmpty qu")
      case True
      then show ?thesis
        using Some by (auto simp: doWork_loop.simps [of "Suc n"] lowered_refl stays_visited_refl)
    next
      case False
      obtain r t where e: "expand s = (r, t)" by (cases "expand s")
      note ef = expand_effects [of s]
      have lt: "lowered s t" "stays_visited s t" using ef(1,2) e by simp_all
      show ?thesis
      proof (cases r)
        case (Inl err)
        then show ?thesis
          using Some False e lt by (simp add: doWork_loop.simps [of "Suc n"])
      next
        case (Inr pr)
        obtain p par where pr: "pr = (p, par)" by (cases pr)
        have pv: "0 \<le> fst p \<longrightarrow> cell (visited t) p = Some True"
          using ef(3) [of p par] e Inr pr by simp
        have eq: "doWork_loop (Suc n) s acc = doWork_loop n t (acc @ [pr])"
          using Some False e Inr by (simp add: doWork_loop.simps [of "Suc n"])
        note ih = Suc.IH [of t "acc @ [pr]"]
        have "\<forall>(p, par) \<in> set (acc @ [pr]). 0 \<le> fst p \<longrightarrow> cell (visited t) p = Some True"
          if "\<forall>(p, par) \<in> set acc. 0 \<le> fst p \<longrightarrow> cell (visited s) p = Some True"
          using that pv pr lt(2) by (auto simp: stays_visited_def)
        then show ?thesis
          unfolding eq using ih lowered_trans [OF lt(1)] stays_visited_trans [OF lt(2)]
          by blast
      qed
    qed
  qed
qed

lemma doWork_effects:
  "lowered s (snd (doWork s))"
  "stays_visited s (snd (doWork s))"
  "fst (doWork s) = Inr (Some batch) \<Longrightarrow> (p, par) \<in> set batch \<Longrightarrow> 0 \<le> fst p \<Longrightarrow>
   cell (visited (snd (doWork s))) p = Some True"
proof -
  let ?t = "s\<lparr> timeout_cleared := True \<rparr>"
  have l: "lowered s ?t" "stays_visited s ?t" by (simp_all add: lowered_def stays_visited_def)
  note le = doWork_loop_effects [of ?t "pointsPerPost ?t" "[]"]
  show "lowered s (snd (doWork s))"
    using le lowered_trans [OF l(1)]
    by (auto simp: doWork_def Let_def lowered_refl split: prod.splits sum.splits)
  show "stays_visited s (snd (doWork s))"
    using le stays_visited_trans [OF l(2)]
    by (auto simp: doWork_def Let_def stays_visited_refl split: prod.splits sum.splits)
  show "cell (visited (snd (doWork s))) p = Some True"
    if a: "fst (doWork s) = Inr (Some batch)" "(p, par) \<in> set batch" "0 \<le> fst p"
  proof -
    obtain r t where rt: "doWork_loop (pointsPerPost ?t) ?t [] = (r, t)"
      by (cases "doWork_loop (pointsPerPost ?t) ?t []")
    from a(1) have w: "working s" "r = Inr batch" "snd (doWork s) = t"
      using rt by (auto simp: doWork_def Let_def split: sum.splits if_splits)
    from le rt w(2) have "\<forall>(p, par) \<in> set batch. 0 \<le> fst p \<longrightarrow> cell (visited t) p = Some True"
      by simp
    then show ?thesis using a(2,3) w(3) by auto
  qed
qed

subsection \<open>Searches through the interface\<close>

lemma built_ok:
  assumes "2 \<le> w" "2 \<le> h" "4 * w * h \<le> length d"
  shows "fields_ok (built d w h) h w" "pointsPerPost (built d w h) = 500"
    "trained (built d w h) = False"
proof -
  let ?s = "setDimensions (int w) (int h) constructor"
  have wh: "width ?s = int w" "height ?s = int h" by (simp_all add: setDimensions_def)
  from setData_ok [OF assms(1,2) wh assms(3)]
  obtain s' where s': "setData d ?s = (Inr (), s')" "fields_ok s' h w" "trained s' = trained ?s"
    by blast
  then have b: "built d w h = s'" by (simp add: built_def)
  show "fields_ok (built d w h) h w" using s' b by simp
  show "pointsPerPost (built d w h) = 500"
    using setData_success_fields(11) [OF s'(1)] b by (simp add: setDimensions_def constructor_def)
  show "trained (built d w h) = False"
    using s'(3) b by (simp add: setDimensions_def constructor_def)
qed

lemma after_doWork_Suc: "after_doWork (Suc n) s = snd (doWork (after_doWork n s))"
  by (simp add: after_doWork_def)

lemma run_invariant:
  assumes "2 \<le> w" "2 \<le> h" "4 * w * h \<le> length d" "in_bounds h w seed"
  shows "searching h w seed (after_doWork n (seeded d w h seed)) \<and>
         working (after_doWork n (seeded d w h seed))"
proof (induction n)
  case 0
  from setPoint_searching [OF built_ok(1) [OF assms(1-3)] assms(4)]
  show ?case by (auto simp: after_doWork_def seeded_def)
next
  case (Suc n)
  from doWork_searching [of h w seed "after_doWork n (seeded d w h seed)"] Suc
  show ?case by (auto simp: after_doWork_Suc)
qed

lemma built_succeeds:
  assumes "2 \<le> w" "2 \<le> h" "4 * w * h \<le> length d"
  shows "fst (setData d (setDimensions (int w) (int h) constructor)) = Inr ()"
proof -
  let ?s = "setDimensions (int w) (int h) constructor"
  have wh: "width ?s = int w" "height ?s = int h" by (simp_all add: setDimensions_def)
  from setData_ok [OF assms(1,2) wh assms(3)] show ?thesis by auto
qed

lemma seeded_succeeds:
  assumes "2 \<le> w" "2 \<le> h" "4 * w * h \<le> length d" "in_bounds h w seed"
  shows "fst (setPoint seed (built d w h)) = Inr ()"
  using setPoint_searching [OF built_ok(1) [OF assms(1-3)] assms(4)] by auto

lemma after_doWork_add: "after_doWork m (after_doWork n s) = after_doWork (n + m) s"
  by (simp add: after_doWork_def funpow_add add.commute)

lemma after_doWork_effects:
  "lowered s (after_doWork m s)" "stays_visited s (after_doWork m s)"
proof -
  have "lowered s (after_doWork m s) \<and> stays_visited s (after_doWork m s)"
  proof (induction m)
    case 0
    show ?case by (simp add: after_doWork_def lowered_refl stays_visited_refl)
  next
    case (Suc m)
    show ?case
      using Suc lowered_trans [OF _ doWork_effects(1) [of "after_doWork m s"]]
        stays_visited_trans [OF _ doWork_effects(2) [of "after_doWork m s"]]
      by (simp add: after_doWork_Suc)
  qed
  then show "lowered s (after_doWork m s)" "stays_visited s (after_doWork m s)" by simp_all
qed

lemma first_batch:
  assumes "2 \<le> w" "2 \<le> h" "4 * w * h \<le> length d" "in_bounds h w seed"
  shows "\<exists>rest. doWork (seeded d w h seed)
             = (Inr (Some ((seed, None) # rest)), after_doWork 1 (seeded d w h seed)) \<and>
           (\<forall>(p, par) \<in> set rest. p \<noteq> seed \<and> par \<noteq> None) \<and>
           seed \<notin> pending (after_doWork 1 (seeded d w h seed))"
proof -
  have ppp: "0 < pointsPerPost (built d w h)" using built_ok(2) [OF assms(1-3)] by simp
  from first_doWork [OF built_ok(1) [OF assms(1-3)] assms(4) ppp]
  obtain s1 rest s2 where a: "setPoint seed (built d w h) = (Inr (), s1)"
    "doWork s1 = (Inr (Some ((seed, None) # rest)), s2)"
    "\<forall>(p, par) \<in> set rest. p \<noteq> seed \<and> par \<noteq> None" "seed \<notin> pending s2"
    by blast
  have s1: "seeded d w h seed = s1" using a(1) by (simp add: seeded_def)
  have s2: "after_doWork 1 (seeded d w h seed) = s2" using a(2) s1 by (simp add: after_doWork_def)
  show ?thesis using a s1 s2 by simp
qed

lemma later_batches:
  assumes "2 \<le> w" "2 \<le> h" "4 * w * h \<le> length d" "in_bounds h w seed"
  shows "seed \<notin> pending (after_doWork (Suc n) (seeded d w h seed)) \<and>
         (\<exists>batch. fst (doWork (after_doWork (Suc n) (seeded d w h seed))) = Inr (Some batch) \<and>
            (\<forall>(p, par) \<in> set batch. p \<noteq> seed \<and> par \<noteq> None))"
proof (induction n)
  case 0
  from first_batch [OF assms] have np: "seed \<notin> pending (after_doWork (Suc 0) (seeded d w h seed))"
    by auto
  from run_invariant [OF assms, of "Suc 0"]
  have "searching h w seed (after_doWork (Suc 0) (seeded d w h seed))"
    "working (after_doWork (Suc 0) (seeded d w h seed))" by simp_all
  from doWork_searching [OF this] np show ?case by auto
next
  case (Suc n)
  let ?s = "after_doWork (Suc n) (seeded d w h seed)"
  from run_invariant [OF assms, of "Suc n"]
  have i: "searching h w seed ?s" "working ?s" by simp_all
  from doWork_searching [OF i] Suc
  have np: "seed \<notin> pending (after_doWork (Suc (Suc n)) (seeded d w h seed))"
    by (auto simp: after_doWork_Suc)
  from run_invariant [OF assms, of "Suc (Suc n)"]
  have "searching h w seed (after_doWork (Suc (Suc n)) (seeded d w h seed))"
    "working (after_doWork (Suc (Suc n)) (seeded d w h seed))" by simp_all
  from doWork_searching [OF this] np show ?case by auto
qed

lemma seed_visited:
  assumes "2 \<le> w" "2 \<le> h" "4 * w * h \<le> length d" "in_bounds h w seed"
  shows "cell (visited (after_doWork (Suc n) (seeded d w h seed))) seed = Some True"
proof -
  from first_batch [OF assms] obtain rest where
    d: "doWork (seeded d w h seed)
          = (Inr (Some ((seed, None) # rest)), after_doWork 1 (seeded d w h seed))" by blast
  have "0 \<le> fst seed" using assms(4) by (simp add: in_bounds_def)
  from doWork_effects(3) [of "seeded d w h seed" "(seed, None) # rest" seed None] d this
  have v: "cell (visited (after_doWork 1 (seeded d w h seed))) seed = Some True" by simp
  from after_doWork_effects(2) [of "after_doWork 1 (seeded d w h seed)" n] v
  have "stays_visited (after_doWork 1 (seeded d w h seed)) (after_doWork (Suc n) (seeded d w h seed))"
    by (simp add: after_doWork_add)
  with v show ?thesis unfolding stays_visited_def by blast
qed

lemma img_groove_length: "length img_groove = 120"
  by (simp add: img_groove_def)

lemma built_groove: "built img_groove 5 6 = groove_engine"
  by (simp add: built_def groove_engine_def)



text \<open>
  C10. On an image of at least 2 by 2 pixels and for a seed inside it, the first
  \<^verbatim>\<open>doWork\<close> after \<^verbatim>\<open>setPoint(seed)\<close> returns a batch that starts with the seed, paired
  with \<^verbatim>\<open>undefined\<close>: the parents matrix has no entry for the seed, then and after any
  number of \<^verbatim>\<open>doWork\<close> calls. Every other pixel of that batch, and every pixel of every
  later batch, is not the seed and is paired with a parent pixel.
\<close>

theorem seed_first_without_parent:
  assumes "2 \<le> w" "2 \<le> h" "4 * w * h \<le> length d" "in_bounds h w seed"
  shows "(\<exists>rest. fst (doWork (seeded d w h seed)) = Inr (Some ((seed, None) # rest)) \<and>
            (\<forall>(p, par) \<in> set rest. p \<noteq> seed \<and> par \<noteq> None)) \<and>
         cell (parents (seeded d w h seed)) seed = None \<and>
         cell (parents (after_doWork n (seeded d w h seed))) seed = None \<and>
         (\<exists>batch. fst (doWork (after_doWork (Suc n) (seeded d w h seed))) = Inr (Some batch) \<and>
            (\<forall>(p, par) \<in> set batch. p \<noteq> seed \<and> par \<noteq> None))"
proof -
  from run_invariant [OF assms, of n]
  have "searching h w seed (after_doWork n (seeded d w h seed))" by simp
  note pn = searchingD(9) [OF this]
  from first_batch [OF assms]
  have a: "\<exists>rest. fst (doWork (seeded d w h seed)) = Inr (Some ((seed, None) # rest)) \<and>
            (\<forall>(p, par) \<in> set rest. p \<noteq> seed \<and> par \<noteq> None)" by auto
  from run_invariant [OF assms, of 0]
  have "searching h w seed (seeded d w h seed)" by (simp add: after_doWork_def)
  from searchingD(9) [OF this] a later_batches [OF assms, of n] pn
  show ?thesis by simp
qed

theorem seed_first_without_parent_witness:
  "(2 :: nat) \<le> 5 \<and> (2 :: nat) \<le> 6 \<and> 4 * 5 * 6 \<le> length img_groove \<and> in_bounds 6 5 (3, 3) \<and>
   (\<exists>rest. fst (doWork (seeded img_groove 5 6 (3, 3))) = Inr (Some (((3, 3), None) # rest))) \<and>
   cell (parents (seeded img_groove 5 6 (3, 3))) (3, 3) = None"
proof -
  have h: "(2 :: nat) \<le> 5" "(2 :: nat) \<le> 6" "4 * 5 * 6 \<le> length img_groove"
    "in_bounds 6 5 (3, 3)"
    by (simp_all add: img_groove_length in_bounds_def)
  from seed_first_without_parent [OF h, of 0] h show ?thesis by blast
qed

subsection \<open>The search on the groove image\<close>

lemma unit_floor: "num_max (Some 0) (Some (1 / 10 ^ 100)) = Some (1 / 10 ^ 100)"
  "num_max (Some 1) (Some (1 / 10 ^ 100)) = Some 1"
  by (simp_all add: max_def)

lemma num_sqrt_01: "num_sqrt (Some 0) = Some 0" "num_sqrt (Some 1) = Some 1"
  by (simp_all add: num_sqrt_def)

lemma num_div_01: "num_div (Some 0) (Some (1 / 10 ^ 100)) = Some 0"
  "num_div (Some a) (Some 1) = Some a"
  by (simp_all add: num_div_def)

lemmas groove_fields = groove_engine_fields(1-6)

lemma guv_groove:
  "gradUnitVector groove_gradX groove_gradY 1 1 = Inr (Some 0, Some (- 1))"
  "gradUnitVector groove_gradX groove_gradY 1 2 = Inr (Some (- 1), Some 0)"
  "gradUnitVector groove_gradX groove_gradY 1 3 = Inr (Some (- 1), Some 0)"
  "gradUnitVector groove_gradX groove_gradY 1 4 = Inr (Some (- 1), Some 0)"
  "gradUnitVector groove_gradX groove_gradY 2 1 = Inr (Some 1, Some 0)"
  "gradUnitVector groove_gradX groove_gradY 2 2 = Inr (Some 1, Some 0)"
  "gradUnitVector groove_gradX groove_gradY 2 3 = Inr (Some 1, Some 0)"
  "gradUnitVector groove_gradX groove_gradY 2 4 = Inr (Some 0, Some 0)"
  "gradUnitVector groove_gradX groove_gradY 3 1 = Inr (Some 0, Some 0)"
  "gradUnitVector groove_gradX groove_gradY 3 2 = Inr (Some 0, Some 0)"
  "gradUnitVector groove_gradX groove_gradY 3 3 = Inr (Some 0, Some 1)"
  "gradUnitVector groove_gradX groove_gradY 3 4 = Inr (Some 1, Some 0)"
  "gradUnitVector groove_gradX groove_gradY 4 2 = Inr (Some 0, Some 0)"
  "gradUnitVector groove_gradX groove_gradY 4 3 = Inr (Some 0, Some 0)"
  "gradUnitVector groove_gradX groove_gradY 4 4 = Inr (Some 1, Some 0)"
  by (simp_all add: gradUnitVector_def groove_gradX_def groove_gradY_def row_get_def arr_get_def
      Let_def unit_floor num_sqrt_01 num_div_01)

lemma dist_groove_33:
  "dist_cost groove_engine 3 3 2 2 = Inr (Some (11 / 150))"
  "dist_cost groove_engine 3 3 3 2 = Inr (Some (43 / 100 * SQRT1_2 + 151 / 300))"
  "dist_cost groove_engine 3 3 4 2 = Inr (None)"
  "dist_cost groove_engine 3 3 2 3 = Inr (Some (11 / 300))"
  "dist_cost groove_engine 3 3 4 3 = Inr (None)"
  "dist_cost groove_engine 3 3 2 4 = Inr (Some (183 / 200))"
  "dist_cost groove_engine 3 3 3 4 = Inr (Some (27 / 50))"
  "dist_cost groove_engine 3 3 4 4 = Inr (None)"
  using SQRT1_2_bounds
  by (simp_all add: dist_cost_def ebind_def field_get_def row_get_def arr_get_def groove_fields
      groove_gradient_def groove_laplace_def scissors_gradDirection_def gradDirection_def
      guv_groove Let_def weigh3_def num_lt_def dir_acos turns_values)

lemma dist_groove_22:
  "dist_cost groove_engine 2 2 1 1 = Inr (Some (7 / 15))"
  "dist_cost groove_engine 2 2 2 1 = Inr (Some (43 / 100))"
  "dist_cost groove_engine 2 2 3 1 = Inr (Some (183 / 200))"
  "dist_cost groove_engine 2 2 1 2 = Inr (Some (151 / 300))"
  "dist_cost groove_engine 2 2 3 2 = Inr (Some (43 / 100 * SQRT1_2 + 151 / 300))"
  "dist_cost groove_engine 2 2 1 3 = Inr (Some (151 / 300))"
  "dist_cost groove_engine 2 2 2 3 = Inr (Some 0)"
  "dist_cost groove_engine 2 2 3 3 = Inr (Some (151 / 300))"
  using SQRT1_2_bounds
  by (simp_all add: dist_cost_def ebind_def field_get_def row_get_def arr_get_def groove_fields
      groove_gradient_def groove_laplace_def scissors_gradDirection_def gradDirection_def
      guv_groove Let_def weigh3_def num_lt_def dir_acos turns_values)

lemma dist_groove_23:
  "dist_cost groove_engine 2 3 1 2 = Inr (Some (151 / 300))"
  "dist_cost groove_engine 2 3 2 2 = Inr (Some 0)"
  "dist_cost groove_engine 2 3 3 2 = Inr (Some (183 / 200))"
  "dist_cost groove_engine 2 3 1 3 = Inr (Some (151 / 300))"
  "dist_cost groove_engine 2 3 3 3 = Inr (Some (7 / 15))"
  "dist_cost groove_engine 2 3 1 4 = Inr (Some (151 / 300))"
  "dist_cost groove_engine 2 3 2 4 = Inr (Some (43 / 100 * SQRT1_2 + 7 / 15))"
  "dist_cost groove_engine 2 3 3 4 = Inr (Some (7 / 15))"
  using SQRT1_2_bounds
  by (simp_all add: dist_cost_def ebind_def field_get_def row_get_def arr_get_def groove_fields
      groove_gradient_def groove_laplace_def scissors_gradDirection_def gradDirection_def
      guv_groove Let_def weigh3_def num_lt_def dir_acos turns_values)

lemma SQRT1_2_near: "7 / 10 < SQRT1_2" "SQRT1_2 < 71 / 100"
proof -
  have "sqrt ((7 / 10)\<^sup>2) < sqrt (1 / 2)" by (subst real_sqrt_less_iff) (simp add: power2_eq_square)
  then show "7 / 10 < SQRT1_2" by (simp add: SQRT1_2_def)
  have "sqrt (1 / 2) < sqrt ((71 / 100)\<^sup>2)" by (subst real_sqrt_less_iff) (simp add: power2_eq_square)
  then show "SQRT1_2 < 71 / 100" by (simp add: SQRT1_2_def)
qed

lemma MAX_VALUE_large: "1000 < MAX_VALUE"
  by (simp add: MAX_VALUE_def)

lemma js_round_MAX_VALUE: "js_round MAX_VALUE mod 256 = 0"
proof -
  define k :: int where "k = (2 ^ 53 - 1) * 2 ^ 963"
  have m: "MAX_VALUE = real_of_int (k * 256)" by (simp add: MAX_VALUE_def k_def)
  have "\<lfloor>real_of_int (k * 256) + 1 / 2\<rfloor> = k * 256" by (rule floor_unique) simp_all
  then have "js_round MAX_VALUE = k * 256" by (simp only: js_round_def m)
  then show ?thesis by simp
qed

lemma js_round_small:
  "- 1 / 2 \<le> x \<Longrightarrow> x < 1 / 2 \<Longrightarrow> js_round x = 0"
  "1 / 2 \<le> x \<Longrightarrow> x < 3 / 2 \<Longrightarrow> js_round x = 1"
  unfolding js_round_def by linarith+

lemma bq_scan_loc:
  assumes "bq_loc q < length (bq_buckets q)" "bq_buckets q ! bq_loc q \<noteq> []"
  shows "bq_scan q = Some (bq_loc q)"
proof -
  let ?n = "length (bq_buckets q)"
  have "0 < ?n" using assms(1) by linarith
  then have "[0..<?n] = 0 # [Suc 0..<?n]" by (subst upt_rec) simp
  then show ?thesis using assms by (simp add: bq_scan_def Let_def)
qed

lemma bq_pop_loc:
  assumes "bq_loc q < length (bq_buckets q)" "bq_buckets q ! bq_loc q \<noteq> []"
  shows "bq_pop q = Inr (hd (bq_buckets q ! bq_loc q),
           q\<lparr> bq_buckets := (bq_buckets q)[bq_loc q := tl (bq_buckets q ! bq_loc q)] \<rparr>)"
  by (simp add: bq_pop_def bq_scan_loc [OF assms])

lemma buckets_256: "replicate 256 [] = [] # [] # replicate 254 ([] :: point list)"
proof -
  have e: "(256 :: nat) = Suc (Suc 254)" by simp
  show ?thesis by (subst e) (simp only: replicate_Suc)
qed

lemma groove_search_fields:
  "static groove_search = static groove_engine"
  "parents groove_search = Some groove0_parents"
  "visited groove_search = Some groove0_visited"
  "cost groove_search = Some groove0_cost"
  "pq groove_search = Some groove0_pq"
  "working groove_search"
proof -
  have s: "static groove_search = static (snd (setPoint (3, 3) groove_engine))"
    by (simp add: groove_search_def seeded_def built_groove)
  show "static groove_search = static groove_engine" unfolding s by (rule static_setPoint)
  have m: "nat (js_round MAX_VALUE mod 256) = 0" by (simp add: js_round_MAX_VALUE)
  note ev = groove_search_def seeded_def built_groove setPoint_def setWorking_def Let_def
    groove_engine_fields(7-10) upt_eval bq_new_def bq_push_def bq_getBucket_def pq_cost_def
    row_get_def arr_get_def arr_set_def field_set_def m buckets_256
  show "parents groove_search = Some groove0_parents"
    by (simp add: ev groove0_parents_def)
  show "visited groove_search = Some groove0_visited"
    by (simp add: ev groove0_visited_def)
  show "cost groove_search = Some groove0_cost"
    by (simp add: ev groove0_cost_def)
  show "pq groove_search = Some groove0_pq"
    by (simp add: ev groove0_pq_def)
  show "working groove_search"
    by (simp add: ev)
qed

lemma dist_cost_update [simp]:
  "dist_cost (s\<lparr> pq := a \<rparr>) = dist_cost s"
  "dist_cost (s\<lparr> cost := b \<rparr>) = dist_cost s"
  "dist_cost (s\<lparr> parents := c \<rparr>) = dist_cost s"
  "dist_cost (s\<lparr> visited := d \<rparr>) = dist_cost s"
  using dist_cost_static [of "s\<lparr> pq := a \<rparr>"] dist_cost_static [of "s\<lparr> cost := b \<rparr>"]
    dist_cost_static [of "s\<lparr> parents := c \<rparr>"] dist_cost_static [of "s\<lparr> visited := d \<rparr>"]
    dist_cost_static [of s]
  by simp_all

lemma adj_update [simp]:
  "adj (s\<lparr> pq := a \<rparr>) = adj s"
  "adj (s\<lparr> cost := b \<rparr>) = adj s"
  "adj (s\<lparr> parents := c \<rparr>) = adj s"
  "adj (s\<lparr> visited := d \<rparr>) = adj s"
  by (intro ext, simp add: adj_def)+

lemma same_static:
  assumes "static s = static groove_engine"
  shows "dist_cost s = dist_cost groove_engine" "adj s = adj groove_engine"
  using dist_cost_static [of s] dist_cost_static [of groove_engine]
    adj_static [of s] adj_static [of groove_engine] assms by simp_all

lemma upto_13: "[1..3] = [1, 2, 3]"
proof -
  have "[1..3] = 1 # [2..3]" by (subst upto_rec1) simp_all
  then show ?thesis by simp
qed

lemma adj_groove:
  "adj groove_engine (3, 3) = Inr [(2, 2), (3, 2), (4, 2), (2, 3), (4, 3), (2, 4), (3, 4), (4, 4)]"
  "adj groove_engine (2, 2) = Inr [(1, 1), (2, 1), (3, 1), (1, 2), (3, 2), (1, 3), (2, 3), (3, 3)]"
  "adj groove_engine (2, 3) = Inr [(1, 2), (2, 2), (3, 2), (1, 3), (3, 3), (1, 4), (2, 4), (3, 4)]"
  by (simp_all add: adj_def groove_engine_fields(1) groove_greyscale_def row_get_def Let_def
      upto_13)

lemma replicate_2: "replicate 2 x = [x, x]"
  by (simp add: numeral_2_eq_2)

lemmas search_eval = replicate_2 expand_def relax_def ebind_def and_then_def field_get_def field_set_def
  row_get_def arr_get_def arr_set_def num_lt_def Let_def bq_remove_def bq_push_def
  bq_getBucket_def pq_cost_def js_round_small bq_pop_loc adj_groove
  dist_groove_33 dist_groove_22 dist_groove_23

lemma expand1:
  "case expand groove_search of (r, s') \<Rightarrow>
     r = Inr ((3, 3), None) \<and> parents s' = Some groove1_parents \<and>
     visited s' = Some groove1_visited \<and> cost s' = Some groove1_cost \<and> pq s' = Some groove1_pq"
  using SQRT1_2_near MAX_VALUE_large
  by (simp add: search_eval groove_search_fields(2-5) same_static [OF groove_search_fields(1)]
      groove0_parents_def groove0_visited_def groove0_cost_def groove0_pq_def
      groove1_parents_def groove1_visited_def groove1_cost_def groove1_pq_def)

lemma expand2:
  assumes "static s = static groove_engine" "parents s = Some groove1_parents"
    "visited s = Some groove1_visited" "cost s = Some groove1_cost" "pq s = Some groove1_pq"
  shows "case expand s of (r, s') \<Rightarrow>
     r = Inr ((2, 2), Some (3, 3)) \<and> parents s' = Some groove2_parents \<and>
     visited s' = Some groove2_visited \<and> cost s' = Some groove2_cost \<and> pq s' = Some groove2_pq"
  using SQRT1_2_near MAX_VALUE_large
  by (simp add: search_eval assms(2-5) same_static [OF assms(1)]
      groove1_parents_def groove1_visited_def groove1_cost_def groove1_pq_def
      groove2_parents_def groove2_visited_def groove2_cost_def groove2_pq_def)

lemma expand3:
  assumes "static s = static groove_engine" "parents s = Some groove2_parents"
    "visited s = Some groove2_visited" "cost s = Some groove2_cost" "pq s = Some groove2_pq"
  shows "case expand s of (r, s') \<Rightarrow>
     r = Inr ((2, 3), Some (3, 3)) \<and> parents s' = Some groove3_parents \<and>
     visited s' = Some groove3_visited \<and> cost s' = Some groove3_cost \<and> pq s' = Some groove3_pq"
  using SQRT1_2_near MAX_VALUE_large
  by (simp add: search_eval assms(2-5) same_static [OF assms(1)]
      groove2_parents_def groove2_visited_def groove2_cost_def groove2_pq_def
      groove3_parents_def groove3_visited_def groove3_cost_def groove3_pq_def)

lemma static_expands: "static (expands n s) = static s"
  by (induction n) (simp_all add: static_expand)

lemma groove_expands_1:
  "fst (expand groove_search) = Inr ((3, 3), None)"
  "parents (expands 1 groove_search) = Some groove1_parents"
  "visited (expands 1 groove_search) = Some groove1_visited"
  "cost (expands 1 groove_search) = Some groove1_cost"
  "pq (expands 1 groove_search) = Some groove1_pq"
  using expand1 by (simp_all split: prod.splits)

lemma groove_static: "static (expands n groove_search) = static groove_engine"
  by (simp add: static_expands groove_search_fields(1))

lemma groove_expands_2:
  "fst (expand (expands 1 groove_search)) = Inr ((2, 2), Some (3, 3))"
  "parents (expands 2 groove_search) = Some groove2_parents"
  "visited (expands 2 groove_search) = Some groove2_visited"
  "cost (expands 2 groove_search) = Some groove2_cost"
  "pq (expands 2 groove_search) = Some groove2_pq"
  using expand2 [OF groove_static [of 1] groove_expands_1(2-5)]
  by (simp_all add: eval_nat_numeral split: prod.splits)

lemma groove_expands_3:
  "fst (expand (expands 2 groove_search)) = Inr ((2, 3), Some (3, 3))"
  "parents (expands 3 groove_search) = Some groove3_parents"
  "visited (expands 3 groove_search) = Some groove3_visited"
  "cost (expands 3 groove_search) = Some groove3_cost"
  "pq (expands 3 groove_search) = Some groove3_pq"
  using expand3 [OF groove_static [of 2] groove_expands_2(2-5)]
  by (simp_all add: eval_nat_numeral split: prod.splits)

lemma doWork_loop_step:
  assumes "pq s = Some qu" "\<not> bq_isEmpty qu" "fst (expand s) = Inr pr"
  shows "doWork_loop (Suc n) s acc = doWork_loop n (snd (expand s)) (acc @ [pr])"
proof -
  obtain r t where e: "expand s = (r, t)" by force
  with assms(3) have r: "r = Inr pr" by simp
  show ?thesis using assms(1,2) e r by (subst doWork_loop.simps) simp
qed

lemma groove_loop:
  "doWork_loop 500 groove_search []
     = doWork_loop 497 (expands 3 groove_search)
         [((3, 3), None), ((2, 2), Some (3, 3)), ((2, 3), Some (3, 3))]"
proof -
  have n: "(500 :: nat) = Suc (Suc (Suc 497))" by simp
  have e: "\<not> bq_isEmpty groove0_pq" "\<not> bq_isEmpty groove1_pq" "\<not> bq_isEmpty groove2_pq"
    by (simp_all add: bq_isEmpty_def groove0_pq_def groove1_pq_def groove2_pq_def)
  have "doWork_loop 500 groove_search []
          = doWork_loop (Suc (Suc 497)) (expands 1 groove_search) [((3, 3), None)]"
    unfolding n
    using doWork_loop_step [OF groove_search_fields(5) e(1) groove_expands_1(1), of "Suc (Suc 497)" "[]"]
    by simp
  also have "\<dots> = doWork_loop (Suc 497) (expands 2 groove_search)
                     [((3, 3), None), ((2, 2), Some (3, 3))]"
    using doWork_loop_step [OF groove_expands_1(5) e(2) groove_expands_2(1), of "Suc 497" "[((3, 3), None)]"]
    by (simp add: eval_nat_numeral)
  also have "\<dots> = doWork_loop 497 (expands 3 groove_search)
                     [((3, 3), None), ((2, 2), Some (3, 3)), ((2, 3), Some (3, 3))]"
    using doWork_loop_step [OF groove_expands_2(5) e(3) groove_expands_3(1), of 497
        "[((3, 3), None), ((2, 2), Some (3, 3))]"]
    by (simp add: eval_nat_numeral)
  finally show ?thesis .
qed

lemma groove_doWork:
  "snd (doWork (seeded img_groove 5 6 (3, 3)))
     = snd (doWork_loop 497 (expands 3 groove_search)
              [((3, 3), None), ((2, 2), Some (3, 3)), ((2, 3), Some (3, 3))])"
proof -
  have w: "working (seeded img_groove 5 6 (3, 3))"
    using groove_search_fields(6) by (simp add: groove_search_def)
  have p: "pointsPerPost (seeded img_groove 5 6 (3, 3)) = 500"
    using static_setPoint [of "(3, 3)" groove_engine] groove_engine_fields(11)
      static_fields(21) [of "seeded img_groove 5 6 (3, 3)"] static_fields(21) [of groove_engine]
    by (simp add: seeded_def built_groove)
  show ?thesis
    using w p groove_loop
    by (simp add: doWork_def Let_def groove_search_def split: prod.splits sum.splits)
qed


lemma groove_q32:
  "field_get (gradient groove_engine) 2 3 = Inr (Some 1)"
  "field_get (laplace groove_engine) 2 3 = Inr (Some 1)"
  "scissors_gradDirection groove_engine 3 3 3 2 = Inr (Some (2 / 3))"
  using SQRT1_2_bounds
  by (simp_all add: field_get_def row_get_def arr_get_def groove_fields groove_gradient_def
      groove_laplace_def scissors_gradDirection_def gradDirection_def guv_groove Let_def
      num_lt_def dir_acos turns_values)

theorem dist_untrained_witness:
  "fields_ok groove_engine 6 5 \<and> \<not> trained groove_engine \<and>
   field_get (gradient groove_engine) 2 3 = Inr (Some 1) \<and>
   field_get (laplace groove_engine) 2 3 = Inr (Some 1) \<and>
   scissors_gradDirection groove_engine 3 3 3 2 = Inr (Some (2 / 3)) \<and>
   dist_cost groove_engine 3 3 3 2
     = Inr (Some (0.43 * (1 * sqrt (1 / 2)) + 0.43 * 1 + 0.11 * (2 / 3)))"
  using dist_untrained [where s = groove_engine and h = 6 and w = 5 and px = 3 and py = 3
      and qx = 3 and qy = 2]
    groove_engine_fields(6,12)
  by (simp add: groove_q32)

lemma relax_ignores_visited:
  "relax p q (s\<lparr> visited := v \<rparr>)
     = (fst (relax p q s), (snd (relax p q s))\<lparr> visited := v \<rparr>)"
  by (simp add: relax_def Let_def split: sum.splits option.splits prod.splits)



end
